theory Spec2Isabelle
  imports Main "HOL-Library.Word" "HOL-Library.Sublist"
begin

section \<open>Python values used by the scanners\<close>

text \<open>
  A Python \<open>bytes\<close> object is a list of 8-bit words. A Python \<open>str\<close> is a list of
  Unicode code points (natural numbers), so that text decoded from UTF-8 is represented
  exactly; \<open>str_of\<close> embeds an ASCII literal. Timestamps (\<open>datetime\<close> values) are
  integers, Python \<open>int\<close> is \<open>int\<close>, sizes and offsets are \<open>nat\<close>.
\<close>

type_synonym byte = "8 word"
type_synonym bytes = "byte list"
type_synonym str = "nat list"
type_synonym time = int

definition str_of :: "string \<Rightarrow> str" where
  "str_of s = map of_char s"

text \<open>\<open>xs[a:b]\<close> for \<open>0 \<le> a\<close>, \<open>0 \<le> b\<close>: the slice is clipped to the list, never raises.\<close>

definition slice :: "'a list \<Rightarrow> nat \<Rightarrow> nat \<Rightarrow> 'a list" where
  "slice xs a b = take (b - a) (drop a xs)"

text \<open>\<open>data[i]\<close> on bytes: \<open>None\<close> stands for IndexError.\<close>

definition index_byte :: "bytes \<Rightarrow> nat \<Rightarrow> byte option" where
  "index_byte data i = (if i < length data then Some (data ! i) else None)"

text \<open>
  \<open>struct.unpack\<close> with the formats the scanners use; \<open>None\<close> stands for
  \<open>struct.error\<close>, raised when the buffer has not exactly the size of the format.
\<close>

fun unpack_H_be :: "bytes \<Rightarrow> nat option" where
  "unpack_H_be [a, b] = Some (unat a * 256 + unat b)"
| "unpack_H_be _ = None"

fun unpack_H_le :: "bytes \<Rightarrow> nat option" where
  "unpack_H_le [a, b] = Some (unat a + unat b * 256)"
| "unpack_H_le _ = None"

fun unpack_I_be :: "bytes \<Rightarrow> nat option" where
  "unpack_I_be [a, b, c, d] =
     Some (unat a * 16777216 + unat b * 65536 + unat c * 256 + unat d)"
| "unpack_I_be _ = None"

fun unpack_I_le :: "bytes \<Rightarrow> nat option" where
  "unpack_I_le [a, b, c, d] =
     Some (unat a + unat b * 256 + unat c * 65536 + unat d * 16777216)"
| "unpack_I_le _ = None"

text \<open>\<open>sep.join(xs)\<close>.\<close>

fun join :: "str \<Rightarrow> str list \<Rightarrow> str" where
  "join sep [] = []"
| "join sep [x] = x"
| "join sep (x # y # ys) = x @ sep @ join sep (y # ys)"

text \<open>\<open>str(n)\<close> for an integer: decimal digits, a minus sign when negative.\<close>

function str_nat :: "nat \<Rightarrow> str" where
  "str_nat n = (if n < 10 then [48 + n] else str_nat (n div 10) @ [48 + n mod 10])"
  by pat_completeness auto
termination
  by (relation "measure id") auto

definition str_int :: "int \<Rightarrow> str" where
  "str_int i = (if i < 0 then 45 # str_nat (nat (- i)) else str_nat (nat i))"

text \<open>\<open>f'{b:02X}'\<close> for a byte: two upper-case hexadecimal digits.\<close>

definition hex_digit :: "nat \<Rightarrow> nat" where
  "hex_digit d = (if d < 10 then 48 + d else 55 + d)"

definition format_02X :: "byte \<Rightarrow> str" where
  "format_02X b = [hex_digit (unat b div 16), hex_digit (unat b mod 16)]"

text \<open>\<open>':'.join(f'{b:02X}' for b in value)\<close> and \<open>'.'.join(str(b) for b in value)\<close>.\<close>

definition format_mac :: "bytes \<Rightarrow> str" where
  "format_mac value = join [58] (map format_02X value)"

definition format_ip :: "bytes \<Rightarrow> str" where
  "format_ip value = join [46] (map (\<lambda>b. str_nat (unat b)) value)"

text \<open>
  \<open>value.decode('utf-8', errors='ignore')\<close>. \<open>utf8_head\<close> recognises a well-formed
  UTF-8 sequence at the head of the buffer and returns its code point and the number of
  continuation bytes; overlong forms, surrogates and values above U+10FFFF are
  ill-formed. With \<open>errors='ignore'\<close> the decoder drops the bytes of an ill-formed
  sequence and resumes at the first byte that is not part of it; as the dropped bytes
  after the first are continuation bytes, which start no sequence, this is the same as
  dropping one byte and resuming at the next.
\<close>

definition is_cont :: "byte \<Rightarrow> bool" where
  "is_cont b = (128 \<le> unat b \<and> unat b < 192)"

fun utf8_head :: "bytes \<Rightarrow> (nat \<times> nat) option" where
  "utf8_head [] = None"
| "utf8_head (b # bs) =
     (let c = unat b in
      if c < 128 then Some (c, 0)
      else if c < 194 then None
      else if c < 224 then
        (case bs of
           b2 # _ \<Rightarrow> if is_cont b2 then Some ((c - 192) * 64 + (unat b2 - 128), 1) else None
         | _ \<Rightarrow> None)
      else if c < 240 then
        (case bs of
           b2 # b3 # _ \<Rightarrow>
             if is_cont b2 \<and> is_cont b3 \<and> \<not> (c = 224 \<and> unat b2 < 160)
                \<and> \<not> (c = 237 \<and> 160 \<le> unat b2)
             then Some ((c - 224) * 4096 + (unat b2 - 128) * 64 + (unat b3 - 128), 2)
             else None
         | _ \<Rightarrow> None)
      else if c < 245 then
        (case bs of
           b2 # b3 # b4 # _ \<Rightarrow>
             if is_cont b2 \<and> is_cont b3 \<and> is_cont b4 \<and> \<not> (c = 240 \<and> unat b2 < 144)
                \<and> \<not> (c = 244 \<and> 144 \<le> unat b2)
             then Some ((c - 240) * 262144 + (unat b2 - 128) * 4096
                        + (unat b3 - 128) * 64 + (unat b4 - 128), 3)
             else None
         | _ \<Rightarrow> None)
      else None)"

fun utf8_decode_ignore :: "bytes \<Rightarrow> str" where
  "utf8_decode_ignore [] = []"
| "utf8_decode_ignore (b # bs) =
     (case utf8_head (b # bs) of
        Some (cp, k) \<Rightarrow> cp # utf8_decode_ignore (drop k bs)
      | None \<Rightarrow> utf8_decode_ignore bs)"

text \<open>\<open>s.strip('\x00')\<close>: every leading and every trailing NUL character is removed.\<close>

definition strip_nul :: "str \<Rightarrow> str" where
  "strip_nul s = rev (dropWhile (\<lambda>c. c = 0) (rev (dropWhile (\<lambda>c. c = 0) s)))"

definition decode_text :: "bytes \<Rightarrow> str" where
  "decode_text value = strip_nul (utf8_decode_ignore value)"

text \<open>
  \<open>s.upper()\<close>, taken of MAC strings. Python follows the Unicode case tables; the
  model maps the ASCII letters and leaves every other code point as it is, which is
  exact on ASCII text such as the MAC strings that \<open>format_mac\<close> builds.
\<close>

definition upper :: "str \<Rightarrow> str" where
  "upper s = map (\<lambda>c. if 97 \<le> c \<and> c \<le> 122 then c - 32 else c) s"

text \<open>
  \<open>s.lower()\<close> is taken of text decoded from the network, which may hold any code
  point. Python's case mapping (the Unicode case tables and their context rules) is not
  part of the repository: it is the parameter \<open>lw\<close> of every definition that uses
  it, and what is proved of them holds for every case mapping. \<open>ascii_lower\<close> is the
  mapping on ASCII text, where only the letters A to Z change; it stands for
  \<open>lw\<close> where a concrete ASCII text is evaluated.
\<close>

definition ascii_lower :: "str \<Rightarrow> str" where
  "ascii_lower s = map (\<lambda>c. if 65 \<le> c \<and> c \<le> 90 then c + 32 else c) s"

text \<open>\<open>sub in s\<close> on strings: \<open>sub\<close> occurs as a contiguous substring of \<open>s\<close>.\<close>

fun str_contains :: "str \<Rightarrow> str \<Rightarrow> bool" where
  "str_contains sub [] = (sub = [])"
| "str_contains sub (c # cs) = (prefix sub (c # cs) \<or> str_contains sub cs)"

text \<open>\<open>d.get(key, default)\<close> on an optional entry.\<close>

definition dict_get :: "'a option \<Rightarrow> 'a \<Rightarrow> 'a" where
  "dict_get entry dflt = (case entry of Some v \<Rightarrow> v | None \<Rightarrow> dflt)"


section \<open>Device (scanner/base.py)\<close>

record Device =
  brand :: str
  ip :: str
  mac :: str
  name :: str
  model :: str
  firmware :: str
  uptime :: int
  discovered_at :: time
  last_seen :: time

definition unique_id :: "Device \<Rightarrow> str" where
  "unique_id d = upper (mac d)"

text \<open>
  The dataclass constructor: \<open>discovered_at\<close> and \<open>last_seen\<close> are each filled by an
  own call of \<open>datetime.now\<close>; the two readings are the arguments \<open>t1\<close> and \<open>t2\<close>.
\<close>

definition new_Device :: "time \<Rightarrow> time \<Rightarrow> str \<Rightarrow> str \<Rightarrow> str \<Rightarrow> str \<Rightarrow> str \<Rightarrow> str \<Rightarrow> int \<Rightarrow> Device" where
  "new_Device t1 t2 b i m n mo fw up =
     \<lparr>brand = b, ip = i, mac = m, name = n, model = mo, firmware = fw, uptime = up,
      discovered_at = t1, last_seen = t2\<rparr>"

text \<open>
  A captured frame as the scanners read it: the source address of the IP layer when the
  frame has one, and the UDP layer with its ports and its raw payload (\<open>load\<close>, absent
  when the datagram carries none).
\<close>

record udp_layer =
  sport :: int
  dport :: int
  load :: "bytes option"

record packet =
  ip_src :: "str option"
  udp :: "udp_layer option"

datatype 'r step = Next 'r nat | Stop | Raised


section \<open>Ubiquiti decoder (scanner/ubnt.py)\<close>

record ubnt_dict =
  u_mac :: "str option"
  u_ip :: "str option"
  u_firmware :: "str option"
  u_hostname :: "str option"
  u_model :: "str option"
  u_uptime :: "nat option"

definition ubnt_empty :: ubnt_dict where
  "ubnt_empty = \<lparr>u_mac = None, u_ip = None, u_firmware = None, u_hostname = None,
                 u_model = None, u_uptime = None\<rparr>"

text \<open>
  The \<open>if\<close>/\<open>elif\<close> chain of \<open>UbiquitiScanner._parse_tlv\<close> on one TLV;
  \<open>None\<close> stands for an exception raised inside the \<open>try\<close>.
\<close>

definition ubnt_store :: "byte \<Rightarrow> bytes \<Rightarrow> ubnt_dict \<Rightarrow> ubnt_dict option" where
  "ubnt_store tlv_type val result =
     (if tlv_type = 0x01 then
        (if length val \<ge> 6 then Some (result\<lparr>u_mac := Some (format_mac (take 6 val))\<rparr>)
         else Some result)
      else if tlv_type = 0x02 then
        (if length val \<ge> 10 then
           Some (result\<lparr>u_mac := Some (format_mac (take 6 val)),
                        u_ip := Some (format_ip (slice val 6 10))\<rparr>)
         else Some result)
      else if tlv_type = 0x03 then Some (result\<lparr>u_firmware := Some (decode_text val)\<rparr>)
      else if tlv_type = 0x0B then Some (result\<lparr>u_hostname := Some (decode_text val)\<rparr>)
      else if tlv_type = 0x0C then
        (if u_model result = None then Some (result\<lparr>u_model := Some (decode_text val)\<rparr>)
         else Some result)
      else if tlv_type = 0x14 then Some (result\<lparr>u_model := Some (decode_text val)\<rparr>)
      else if tlv_type = 0x0E then
        (if length val \<ge> 4 then
           (case unpack_I_be (take 4 val) of
              None \<Rightarrow> None
            | Some u \<Rightarrow> Some (result\<lparr>u_uptime := Some u\<rparr>))
         else Some result)
      else Some result)"

text \<open>One iteration of the \<open>while\<close> loop, entered with \<open>offset + 3 \<le> len(data)\<close>.\<close>

definition ubnt_step :: "bytes \<Rightarrow> nat \<Rightarrow> ubnt_dict \<Rightarrow> ubnt_dict step" where
  "ubnt_step data offset result =
     (case index_byte data offset of
        None \<Rightarrow> Raised
      | Some tlv_type \<Rightarrow>
          (case unpack_H_be (slice data (offset + 1) (offset + 3)) of
             None \<Rightarrow> Raised
           | Some tlv_len \<Rightarrow>
               if offset + 3 + tlv_len > length data then Stop
               else (case ubnt_store tlv_type
                            (slice data (offset + 3) (offset + 3 + tlv_len)) result of
                       None \<Rightarrow> Raised
                     | Some result' \<Rightarrow> Next result' (offset + 3 + tlv_len))))"

lemma ubnt_step_Next:
  "ubnt_step data offset result = Next r off \<Longrightarrow> offset < off \<and> off \<le> length data"
  by (auto simp: ubnt_step_def split: option.splits if_splits)

text \<open>The loop: \<open>break\<close> and a caught exception both leave it with the current result.\<close>

function ubnt_loop :: "bytes \<Rightarrow> nat \<Rightarrow> ubnt_dict \<Rightarrow> ubnt_dict" where
  "ubnt_loop data offset result =
     (if offset + 3 \<le> length data then
        (case ubnt_step data offset result of
           Next result' offset' \<Rightarrow> ubnt_loop data offset' result'
         | Stop \<Rightarrow> result
         | Raised \<Rightarrow> result)
      else result)"
  by pat_completeness auto
termination
  by (relation "measure (\<lambda>(data, offset, result). length data - offset)")
     (auto dest: ubnt_step_Next)

definition UbiquitiScanner_parse_tlv :: "bytes \<Rightarrow> ubnt_dict" where
  "UbiquitiScanner_parse_tlv data = ubnt_loop data 0 ubnt_empty"

definition UbiquitiScanner_port :: int where
  "UbiquitiScanner_port = 10001"

definition UbiquitiScanner_brand :: str where
  "UbiquitiScanner_brand = str_of ''Ubiquiti''"

definition UbiquitiScanner_parse_packet :: "time \<Rightarrow> time \<Rightarrow> packet \<Rightarrow> Device option" where
  "UbiquitiScanner_parse_packet t1 t2 pkt =
     (case (ip_src pkt, udp pkt) of
        (Some src, Some udp_l) \<Rightarrow>
          if sport udp_l \<noteq> UbiquitiScanner_port \<and> dport udp_l \<noteq> UbiquitiScanner_port
          then None
          else (case load udp_l of
                  None \<Rightarrow> None
                | Some payload \<Rightarrow>
                    if length payload < 6 then None
                    else if slice payload 0 2 \<noteq> [0x01, 0x00] \<and> slice payload 0 2 \<noteq> [0x02, 0x00]
                    then None
                    else
                      (let tlv_data = UbiquitiScanner_parse_tlv (drop 4 payload);
                           mac' = dict_get (u_mac tlv_data) [];
                           ip' = dict_get (u_ip tlv_data) src;
                           name' = dict_get (u_hostname tlv_data) (str_of ''Unknown'');
                           model' = dict_get (u_model tlv_data) [];
                           firmware' = dict_get (u_firmware tlv_data) [];
                           uptime' = dict_get (u_uptime tlv_data) 0
                       in if mac' = [] then None
                          else Some (new_Device t1 t2 UbiquitiScanner_brand ip' mac' name'
                                       model' firmware' (int uptime'))))
      | _ \<Rightarrow> None)"


section \<open>MNDP decoder (scanner/mimosa.py)\<close>

record mndp_dict =
  m_mac :: "str option"
  m_identity :: "str option"
  m_version :: "str option"
  m_platform :: "str option"
  m_board :: "str option"
  m_uptime :: "nat option"
  m_ip :: "str option"

definition mndp_empty :: mndp_dict where
  "mndp_empty = \<lparr>m_mac = None, m_identity = None, m_version = None, m_platform = None,
                 m_board = None, m_uptime = None, m_ip = None\<rparr>"

text \<open>
  The \<open>if\<close>/\<open>elif\<close> chain of \<open>MNDPScanner._parse_tlv\<close> on one TLV;
  \<open>None\<close> stands for an exception raised inside the \<open>try\<close>.
\<close>

definition mndp_store :: "nat \<Rightarrow> bytes \<Rightarrow> mndp_dict \<Rightarrow> mndp_dict option" where
  "mndp_store tlv_type val result =
     (if tlv_type = 0x0001 then
        (if length val \<ge> 6 then Some (result\<lparr>m_mac := Some (format_mac (take 6 val))\<rparr>)
         else Some result)
      else if tlv_type = 0x0005 then Some (result\<lparr>m_identity := Some (decode_text val)\<rparr>)
      else if tlv_type = 0x0007 then Some (result\<lparr>m_version := Some (decode_text val)\<rparr>)
      else if tlv_type = 0x0008 then Some (result\<lparr>m_platform := Some (decode_text val)\<rparr>)
      else if tlv_type = 0x000E then Some (result\<lparr>m_board := Some (decode_text val)\<rparr>)
      else if tlv_type = 0x000A then
        (if length val \<ge> 4 then
           (case unpack_I_le (take 4 val) of
              None \<Rightarrow> None
            | Some u \<Rightarrow> Some (result\<lparr>m_uptime := Some u\<rparr>))
         else Some result)
      else if tlv_type = 0x0014 then
        (if length val \<ge> 4 then Some (result\<lparr>m_ip := Some (format_ip (take 4 val))\<rparr>)
         else Some result)
      else Some result)"

text \<open>One iteration of the \<open>while\<close> loop, entered with \<open>offset + 4 \<le> len(data)\<close>.\<close>

definition mndp_step :: "bytes \<Rightarrow> nat \<Rightarrow> mndp_dict \<Rightarrow> mndp_dict step" where
  "mndp_step data offset result =
     (case unpack_H_le (slice data offset (offset + 2)) of
        None \<Rightarrow> Raised
      | Some tlv_type \<Rightarrow>
          (case unpack_H_le (slice data (offset + 2) (offset + 4)) of
             None \<Rightarrow> Raised
           | Some tlv_len \<Rightarrow>
               if offset + 4 + tlv_len > length data then Stop
               else (case mndp_store tlv_type
                            (slice data (offset + 4) (offset + 4 + tlv_len)) result of
                       None \<Rightarrow> Raised
                     | Some result' \<Rightarrow> Next result' (offset + 4 + tlv_len))))"

lemma mndp_step_Next:
  "mndp_step data offset result = Next r off \<Longrightarrow> offset < off \<and> off \<le> length data"
  by (auto simp: mndp_step_def split: option.splits if_splits)

function mndp_loop :: "bytes \<Rightarrow> nat \<Rightarrow> mndp_dict \<Rightarrow> mndp_dict" where
  "mndp_loop data offset result =
     (if offset + 4 \<le> length data then
        (case mndp_step data offset result of
           Next result' offset' \<Rightarrow> mndp_loop data offset' result'
         | Stop \<Rightarrow> result
         | Raised \<Rightarrow> result)
      else result)"
  by pat_completeness auto
termination
  by (relation "measure (\<lambda>(data, offset, result). length data - offset)")
     (auto dest: mndp_step_Next)

definition MNDPScanner_parse_tlv :: "bytes \<Rightarrow> mndp_dict" where
  "MNDPScanner_parse_tlv data = mndp_loop data 0 mndp_empty"

definition MNDPScanner_port :: int where
  "MNDPScanner_port = 5678"

definition MNDPScanner_brand :: str where
  "MNDPScanner_brand = str_of ''Mikrotik/Mimosa''"

definition mikrotik_indicators :: "str list" where
  "mikrotik_indicators = map str_of
     [''routerboard'', ''rb'', ''ccr'', ''crs'', ''css'', ''hex'', ''hap'',
      ''mikrotik'', ''routeros'', ''chr'', ''ltap'', ''wap'', ''disc'',
      ''sxt'', ''lhg'', ''basebox'', ''netbox'', ''netmetal'', ''powerbox'']"

text \<open>The \<open>for indicator in mikrotik_indicators\<close> loop with its early return.\<close>

fun indicator_loop :: "str list \<Rightarrow> str \<Rightarrow> str" where
  "indicator_loop [] combined = str_of ''Mikrotik/MNDP''"
| "indicator_loop (indicator # rest) combined =
     (if str_contains indicator combined then str_of ''Mikrotik''
      else indicator_loop rest combined)"

definition detect_brand :: "(str \<Rightarrow> str) \<Rightarrow> str \<Rightarrow> str \<Rightarrow> str" where
  "detect_brand lw platform board =
     (let combined = lw (platform @ [32] @ board) in
      if str_contains (str_of ''mimosa'') combined then str_of ''Mimosa''
      else indicator_loop mikrotik_indicators combined)"

definition MNDPScanner_parse_packet :: "(str \<Rightarrow> str) \<Rightarrow> time \<Rightarrow> time \<Rightarrow> packet \<Rightarrow> Device option" where
  "MNDPScanner_parse_packet lw t1 t2 pkt =
     (case (ip_src pkt, udp pkt) of
        (Some src, Some udp_l) \<Rightarrow>
          if sport udp_l \<noteq> MNDPScanner_port \<and> dport udp_l \<noteq> MNDPScanner_port
          then None
          else (case load udp_l of
                  None \<Rightarrow> None
                | Some payload \<Rightarrow>
                    if length payload < 4 then None
                    else
                      (let tlv_data = MNDPScanner_parse_tlv payload;
                           mac' = dict_get (m_mac tlv_data) [];
                           ip' = dict_get (m_ip tlv_data) src;
                           identity = dict_get (m_identity tlv_data) (str_of ''Unknown'');
                           platform = dict_get (m_platform tlv_data) [];
                           board = dict_get (m_board tlv_data) [];
                           version = dict_get (m_version tlv_data) [];
                           uptime' = dict_get (m_uptime tlv_data) 0
                       in if mac' = [] then None
                          else
                            (let brand' = detect_brand lw platform board;
                                 model' = (if board \<noteq> [] then board else platform)
                             in Some (new_Device t1 t2 brand' ip' mac' identity
                                        model' version (int uptime')))))
      | _ \<Rightarrow> None)"


section \<open>Synthetic payloads\<close>

text \<open>
  One TLV record in the layout each \<open>_parse_tlv\<close> reads. Ubiquiti: one byte of type,
  the length in two bytes, big-endian, then the value. MNDP: the type and the length
  in two bytes each, little-endian, then the value.
\<close>

definition ubnt_tlv :: "byte \<Rightarrow> bytes \<Rightarrow> bytes" where
  "ubnt_tlv t v = t # of_nat (length v div 256) # of_nat (length v mod 256) # v"

definition mndp_tlv :: "nat \<Rightarrow> bytes \<Rightarrow> bytes" where
  "mndp_tlv t v = of_nat (t mod 256) # of_nat (t div 256)
                  # of_nat (length v mod 256) # of_nat (length v div 256) # v"

text \<open>A frame with an IP layer and a UDP layer carrying \<open>payload\<close>.\<close>

definition udp_frame :: "str \<Rightarrow> int \<Rightarrow> int \<Rightarrow> bytes \<Rightarrow> packet" where
  "udp_frame src sp dp payload =
     \<lparr>ip_src = Some src, udp = Some \<lparr>sport = sp, dport = dp, load = Some payload\<rparr>\<rparr>"


text \<open>
  A stream of TLV records, and the dict that the \<open>if\<close>/\<open>elif\<close> chain builds from a list
  of (type, value) records taken in order. A buffer overruns when it holds a TLV header
  whose declared length reaches past its end.
\<close>

definition ubnt_stream :: "(byte \<times> bytes) list \<Rightarrow> bytes" where
  "ubnt_stream tlvs = concat (map (\<lambda>(t, v). ubnt_tlv t v) tlvs)"

definition mndp_stream :: "(nat \<times> bytes) list \<Rightarrow> bytes" where
  "mndp_stream tlvs = concat (map (\<lambda>(t, v). mndp_tlv t v) tlvs)"

fun ubnt_accumulated :: "(byte \<times> bytes) list \<Rightarrow> ubnt_dict \<Rightarrow> ubnt_dict option" where
  "ubnt_accumulated [] result = Some result"
| "ubnt_accumulated ((t, v) # tlvs) result =
     (case ubnt_store t v result of
        None \<Rightarrow> None
      | Some result' \<Rightarrow> ubnt_accumulated tlvs result')"

fun mndp_accumulated :: "(nat \<times> bytes) list \<Rightarrow> mndp_dict \<Rightarrow> mndp_dict option" where
  "mndp_accumulated [] result = Some result"
| "mndp_accumulated ((t, v) # tlvs) result =
     (case mndp_store t v result of
        None \<Rightarrow> None
      | Some result' \<Rightarrow> mndp_accumulated tlvs result')"

definition ubnt_overrun :: "bytes \<Rightarrow> bool" where
  "ubnt_overrun tail =
     (3 \<le> length tail \<and> length tail < 3 + (unat (tail ! 1) * 256 + unat (tail ! 2)))"

definition mndp_overrun :: "bytes \<Rightarrow> bool" where
  "mndp_overrun tail =
     (4 \<le> length tail \<and> length tail < 4 + (unat (tail ! 2) + unat (tail ! 3) * 256))"


text \<open>
  Two definitions that follow the words of the specification, for comparison with the
  code. \<open>trim_trailing_nul\<close>: a text with its trailing NUL characters trimmed and
  nothing else removed. \<open>spec_brand\<close>: the brand derived from the lower-case
  concatenation of platform and board, under the case mapping \<open>lw\<close>.
\<close>

definition trim_trailing_nul :: "str \<Rightarrow> str" where
  "trim_trailing_nul s = rev (dropWhile (\<lambda>c. c = 0) (rev s))"

definition spec_brand :: "(str \<Rightarrow> str) \<Rightarrow> str \<Rightarrow> str \<Rightarrow> str" where
  "spec_brand lw platform board =
     (let combined = lw (platform @ board)
      in if str_contains (str_of ''mimosa'') combined then str_of ''Mimosa''
         else if list_ex (\<lambda>indicator. str_contains indicator combined) mikrotik_indicators
              then str_of ''Mikrotik''
         else str_of ''Mikrotik/MNDP'')"


section \<open>Scanner manager (scanner/manager.py)\<close>

text \<open>
  Device objects live in a store: an address names one mutable object, and the registry,
  the scanners' callback argument and the lists handed to callers all hold addresses.
  \<open>next_addr\<close> is the address the next constructed object gets.
\<close>

type_synonym addr = nat
type_synonym tid = nat

text \<open>
  \<open>threading.RLock\<close>: free, or held by one thread that has acquired it
  \<open>k + 1\<close> times. \<open>acquire\<close> by another thread blocks until the owner releases;
  in this sequential model no other thread runs meanwhile, so it blocks for good:
  \<open>None\<close>.
\<close>

datatype RLock = Unlocked | Locked tid nat

fun acquire :: "tid \<Rightarrow> RLock \<Rightarrow> RLock option" where
  "acquire t Unlocked = Some (Locked t 0)"
| "acquire t (Locked t' k) = (if t' = t then Some (Locked t (Suc k)) else None)"

fun release :: "RLock \<Rightarrow> RLock" where
  "release Unlocked = Unlocked"
| "release (Locked t 0) = Unlocked"
| "release (Locked t (Suc k)) = Locked t k"

text \<open>A scanner object: its port, its brand label and its \<open>parse_packet\<close> method.\<close>

record scanner =
  port :: int
  scanner_brand :: str
  parse_packet :: "time \<Rightarrow> time \<Rightarrow> packet \<Rightarrow> Device option"

definition UbiquitiScanner :: scanner where
  "UbiquitiScanner = \<lparr>port = UbiquitiScanner_port, scanner_brand = UbiquitiScanner_brand,
                      parse_packet = UbiquitiScanner_parse_packet\<rparr>"

definition MNDPScanner :: "(str \<Rightarrow> str) \<Rightarrow> scanner" where
  "MNDPScanner lw = \<lparr>port = MNDPScanner_port, scanner_brand = MNDPScanner_brand,
                     parse_packet = MNDPScanner_parse_packet lw\<rparr>"

text \<open>
  The manager's fields. \<open>devices\<close> is the dict from unique id to Device object, in
  insertion order. The two notification callbacks are kept apart, in \<open>callbacks\<close>
  below, because they act on the whole state.
\<close>

record ScannerManager =
  scanners :: "scanner list"
  devices :: "(str \<times> addr) list"
  lock :: RLock
  running :: bool

text \<open>
  The state a call runs in: the object store, the manager, the clock (the successive
  readings of \<open>datetime.now\<close> and how many were taken) and \<open>ext\<close>, the state of
  whoever registered the callbacks. Output printed to the console is not modelled.
\<close>

record 'w world =
  heap :: "addr \<Rightarrow> Device"
  next_addr :: addr
  mgr :: ScannerManager
  clock :: "nat \<Rightarrow> time"
  ticks :: nat
  ext :: 'w

text \<open>
  A notification callback receives the Device object and may do anything to the state,
  the manager included; \<open>None\<close> means that it never returns. A callback that raises
  is not modelled apart: its exception leaves the \<open>with\<close> block, which releases the
  lock, and is caught and printed by \<open>handle_packet\<close>, so the state is the one of a
  callback that returns.
\<close>

type_synonym 'w callback = "addr \<Rightarrow> 'w world \<Rightarrow> 'w world option"

record 'w callbacks =
  on_device_callback :: "'w callback option"
  on_device_update_callback :: "'w callback option"

definition ScannerManager_init :: ScannerManager where
  "ScannerManager_init = \<lparr>scanners = [], devices = [], lock = Unlocked, running = False\<rparr>"

definition no_callbacks :: "'w callbacks" where
  "no_callbacks = \<lparr>on_device_callback = None, on_device_update_callback = None\<rparr>"

definition register_scanner :: "scanner \<Rightarrow> ScannerManager \<Rightarrow> ScannerManager" where
  "register_scanner sc m = m\<lparr>scanners := scanners m @ [sc]\<rparr>"

definition set_on_device_discovered :: "'w callback \<Rightarrow> 'w callbacks \<Rightarrow> 'w callbacks" where
  "set_on_device_discovered cb cbs = cbs\<lparr>on_device_callback := Some cb\<rparr>"

definition set_on_device_updated :: "'w callback \<Rightarrow> 'w callbacks \<Rightarrow> 'w callbacks" where
  "set_on_device_updated cb cbs = cbs\<lparr>on_device_update_callback := Some cb\<rparr>"

definition datetime_now :: "'w world \<Rightarrow> time \<times> 'w world" where
  "datetime_now w = (clock w (ticks w), w\<lparr>ticks := ticks w + 1\<rparr>)"

definition set_lock :: "RLock \<Rightarrow> 'w world \<Rightarrow> 'w world" where
  "set_lock l w = w\<lparr>mgr := (mgr w)\<lparr>lock := l\<rparr>\<rparr>"

text \<open>Leaving a \<open>with self._lock\<close> block.\<close>

definition unlock :: "'w world \<Rightarrow> 'w world" where
  "unlock w = set_lock (release (lock (mgr w))) w"

text \<open>\<open>Device.update_last_seen\<close> and the assignment \<open>existing.ip = ...\<close> on an object.\<close>

definition update_last_seen :: "addr \<Rightarrow> 'w world \<Rightarrow> 'w world" where
  "update_last_seen a w =
     (let (now, w') = datetime_now w
      in w'\<lparr>heap := (heap w')(a := (heap w' a)\<lparr>last_seen := now\<rparr>)\<rparr>)"

definition setattr_ip :: "addr \<Rightarrow> str \<Rightarrow> 'w world \<Rightarrow> 'w world" where
  "setattr_ip a v w = w\<lparr>heap := (heap w)(a := (heap w a)\<lparr>ip := v\<rparr>)\<rparr>"

text \<open>Running an optional callback inside the \<open>with\<close> block, then leaving the block.\<close>

definition notify :: "'w callback option \<Rightarrow> addr \<Rightarrow> 'w world \<Rightarrow> 'w world option" where
  "notify cb a w =
     (case cb of
        None \<Rightarrow> Some (unlock w)
      | Some f \<Rightarrow> (case f a w of None \<Rightarrow> None | Some w' \<Rightarrow> Some (unlock w')))"

text \<open>
  \<open>ScannerManager._on_device_discovered\<close>, run by thread \<open>t\<close> on the Device object
  at address \<open>device\<close>.
\<close>

definition on_device_discovered :: "'w callbacks \<Rightarrow> tid \<Rightarrow> addr \<Rightarrow> 'w world \<Rightarrow> 'w world option" where
  "on_device_discovered cbs t device w =
     (case acquire t (lock (mgr w)) of
        None \<Rightarrow> None
      | Some l \<Rightarrow>
          (let w1 = set_lock l w;
               uid = unique_id (heap w1 device)
           in case map_of (devices (mgr w1)) uid of
                Some existing \<Rightarrow>
                  (let w2 = update_last_seen existing w1;
                       w3 = (if ip (heap w2 existing) \<noteq> ip (heap w2 device)
                             then setattr_ip existing (ip (heap w2 device)) w2 else w2)
                   in notify (on_device_update_callback cbs) existing w3)
              | None \<Rightarrow>
                  (let w2 = w1\<lparr>mgr := (mgr w1)\<lparr>devices := devices (mgr w1) @ [(uid, device)]\<rparr>\<rparr>
                   in notify (on_device_callback cbs) device w2)))"

definition build_filter :: "ScannerManager \<Rightarrow> str" where
  "build_filter m =
     (let ports = map (\<lambda>s. str_int (port s)) (scanners m)
      in if ports = [] then str_of ''udp''
         else str_of ''udp and (port '' @ join (str_of '' or port '') ports @ str_of '')'')"

text \<open>
  \<open>BaseScanner.handle_packet\<close> of a registered scanner, whose callback is the
  manager's \<open>_on_device_discovered\<close>: a decoded Device is a new object, built with two
  readings of the clock.
\<close>

definition handle_packet :: "'w callbacks \<Rightarrow> tid \<Rightarrow> scanner \<Rightarrow> packet \<Rightarrow> 'w world \<Rightarrow> 'w world option" where
  "handle_packet cbs t sc pkt w =
     (case parse_packet sc (clock w (ticks w)) (clock w (ticks w + 1)) pkt of
        None \<Rightarrow> Some w
      | Some d \<Rightarrow>
          (let a = next_addr w;
               w' = w\<lparr>heap := (heap w)(a := d), next_addr := a + 1, ticks := ticks w + 2\<rparr>
           in on_device_discovered cbs t a w'))"

text \<open>\<open>_packet_handler\<close>: every registered scanner sees the frame.\<close>

fun route :: "'w callbacks \<Rightarrow> tid \<Rightarrow> scanner list \<Rightarrow> packet \<Rightarrow> 'w world \<Rightarrow> 'w world option" where
  "route cbs t [] pkt w = Some w"
| "route cbs t (sc # rest) pkt w =
     (case handle_packet cbs t sc pkt w of
        None \<Rightarrow> None
      | Some w' \<Rightarrow> route cbs t rest pkt w')"

definition packet_handler :: "'w callbacks \<Rightarrow> tid \<Rightarrow> packet \<Rightarrow> 'w world \<Rightarrow> 'w world option" where
  "packet_handler cbs t pkt w = route cbs t (scanners (mgr w)) pkt w"

text \<open>
  The external capture capability (\<open>sniff\<close>), as the loop uses it: it hands the
  captured frames one by one to \<open>prn\<close>, asks \<open>stop_filter\<close> after each, and returns
  when that holds; it raises when the capture source cannot be opened or fails. A run
  of it is given by the frames it captures and by how it ends when they are used up:
  \<open>failure = Some PermissionError\<close> with no frames is the capture source that cannot
  be opened for lack of privilege.
\<close>

datatype capture_error = PermissionError | OtherError

record capture =
  frames :: "packet list"
  failure :: "capture_error option"

fun sniff_frames :: "'w callbacks \<Rightarrow> tid \<Rightarrow> packet list \<Rightarrow> 'w world \<Rightarrow> (bool \<times> 'w world) option" where
  "sniff_frames cbs t [] w = Some (False, w)"
| "sniff_frames cbs t (p # ps) w =
     (case packet_handler cbs t p w of
        None \<Rightarrow> None
      | Some w' \<Rightarrow> if \<not> running (mgr w') then Some (True, w') else sniff_frames cbs t ps w')"

definition sniff :: "'w callbacks \<Rightarrow> tid \<Rightarrow> capture \<Rightarrow> 'w world \<Rightarrow> (capture_error option \<times> 'w world) option" where
  "sniff cbs t cap w =
     (case sniff_frames cbs t (frames cap) w of
        None \<Rightarrow> None
      | Some (stopped, w') \<Rightarrow> Some (if stopped then None else failure cap, w'))"

text \<open>
  \<open>_sniff_loop\<close>: both \<open>except\<close> clauses and the \<open>finally\<close> clause only print.
\<close>

definition sniff_loop :: "'w callbacks \<Rightarrow> tid \<Rightarrow> capture \<Rightarrow> 'w world \<Rightarrow> 'w world option" where
  "sniff_loop cbs t cap w =
     (case sniff cbs t cap w of
        None \<Rightarrow> None
      | Some (Some PermissionError, w') \<Rightarrow> Some w'
      | Some (Some OtherError, w') \<Rightarrow> Some w'
      | Some (None, w') \<Rightarrow> Some w')"

text \<open>
  \<open>start\<close> sets the flag and launches the thread that runs \<open>_sniff_loop\<close>;
  \<open>stop\<close> clears the flag and waits for the thread for at most two seconds.
\<close>

definition start :: "'w world \<Rightarrow> 'w world" where
  "start w = (if running (mgr w) then w else w\<lparr>mgr := (mgr w)\<lparr>running := True\<rparr>\<rparr>)"

definition stop :: "'w world \<Rightarrow> 'w world" where
  "stop w = w\<lparr>mgr := (mgr w)\<lparr>running := False\<rparr>\<rparr>"

definition is_running :: "'w world \<Rightarrow> bool" where
  "is_running w = running (mgr w)"

definition get_devices :: "tid \<Rightarrow> 'w world \<Rightarrow> (addr list \<times> 'w world) option" where
  "get_devices t w =
     (case acquire t (lock (mgr w)) of
        None \<Rightarrow> None
      | Some l \<Rightarrow> Some (map snd (devices (mgr (set_lock l w))), unlock (set_lock l w)))"

definition get_device_count :: "tid \<Rightarrow> 'w world \<Rightarrow> (int \<times> 'w world) option" where
  "get_device_count t w =
     (case acquire t (lock (mgr w)) of
        None \<Rightarrow> None
      | Some l \<Rightarrow> Some (int (length (devices (mgr (set_lock l w)))), unlock (set_lock l w)))"

definition clear_devices :: "tid \<Rightarrow> 'w world \<Rightarrow> 'w world option" where
  "clear_devices t w =
     (case acquire t (lock (mgr w)) of
        None \<Rightarrow> None
      | Some l \<Rightarrow>
          (let w1 = set_lock l w
           in Some (unlock (w1\<lparr>mgr := (mgr w1)\<lparr>devices := []\<rparr>\<rparr>))))"


section \<open>Notions used to state the properties of the manager\<close>

text \<open>
  A callback is quiet when it always returns and leaves the object store and the manager
  as they are (it may change the state of its owner): the dashboard's callback, which
  only schedules a redraw, is of this kind. No callback at all is quiet.
\<close>

definition quiet :: "'w callback option \<Rightarrow> bool" where
  "quiet cb =
     (case cb of
        None \<Rightarrow> True
      | Some f \<Rightarrow> \<forall>a s. \<exists>s'. f a s = Some s' \<and> heap s' = heap s \<and> mgr s' = mgr s)"

text \<open>
  The lock is held by thread \<open>t\<close>. \<open>checked t cb\<close> is the callback \<open>cb\<close> with the
  assertion that it runs while \<open>t\<close> holds the lock: it never returns when called with
  the lock free or in other hands. \<open>reentrant t\<close> is a callback that queries
  \<open>get_devices\<close> from thread \<open>t\<close> and does nothing else.
\<close>

definition held_by :: "tid \<Rightarrow> 'w world \<Rightarrow> bool" where
  "held_by t w = (case lock (mgr w) of Unlocked \<Rightarrow> False | Locked t' k \<Rightarrow> t' = t)"

definition checked :: "tid \<Rightarrow> 'w callback \<Rightarrow> 'w callback" where
  "checked t cb a w = (if held_by t w then cb a w else None)"

definition checked_callbacks :: "tid \<Rightarrow> 'w callbacks \<Rightarrow> 'w callbacks" where
  "checked_callbacks t cbs =
     \<lparr>on_device_callback = map_option (checked t) (on_device_callback cbs),
      on_device_update_callback = map_option (checked t) (on_device_update_callback cbs)\<rparr>"

definition reentrant :: "tid \<Rightarrow> 'w callback" where
  "reentrant t a w = map_option snd (get_devices t w)"

definition reentrant_callbacks :: "tid \<Rightarrow> 'w callbacks" where
  "reentrant_callbacks t =
     \<lparr>on_device_callback = Some (reentrant t), on_device_update_callback = Some (reentrant t)\<rparr>"

text \<open>
  A callback that records, in its owner's state, the state of the lock it is called
  under.
\<close>

definition probe :: "RLock list callback" where
  "probe a w = Some (w\<lparr>ext := ext w @ [lock (mgr w)]\<rparr>)"

definition probe_callbacks :: "RLock list callbacks" where
  "probe_callbacks = \<lparr>on_device_callback = Some probe, on_device_update_callback = Some probe\<rparr>"

text \<open>The records the registry holds: each key with the current value of its object.\<close>

definition registry_records :: "'w world \<Rightarrow> (str \<times> Device) list" where
  "registry_records w = map (\<lambda>(k, a). (k, heap w a)) (devices (mgr w))"

text \<open>
  Two sightings of one device, with the MAC in different letter case and different IP
  addresses, in a state whose registry is empty (\<open>world0\<close>) or holds the first of them
  (\<open>world1\<close>).
\<close>

definition dev_a :: Device where
  "dev_a = \<lparr>brand = str_of ''Ubiquiti'', ip = str_of ''10.0.0.1'',
            mac = str_of ''aa:bb:cc:dd:ee:ff'', name = str_of ''AP1'', model = [],
            firmware = [], uptime = 0, discovered_at = 100, last_seen = 100\<rparr>"

definition dev_b :: Device where
  "dev_b = \<lparr>brand = str_of ''Ubiquiti'', ip = str_of ''10.0.0.2'',
            mac = str_of ''AA:BB:CC:DD:EE:FF'', name = str_of ''AP1'', model = [],
            firmware = [], uptime = 0, discovered_at = 200, last_seen = 200\<rparr>"

definition world0 :: "'w \<Rightarrow> 'w world" where
  "world0 x = \<lparr>heap = (\<lambda>_. dev_a)(1 := dev_b), next_addr = 2, mgr = ScannerManager_init,
               clock = (\<lambda>n. 300 + int n), ticks = 0, ext = x\<rparr>"

definition world1 :: "'w \<Rightarrow> 'w world" where
  "world1 x = (world0 x)\<lparr>mgr := ScannerManager_init
                 \<lparr>devices := [(str_of ''AA:BB:CC:DD:EE:FF'', 0)]\<rparr>\<rparr>"


section \<open>Unfolding the loops\<close>

text \<open>
  The defining equations of the recursive loops rewrite for ever when used blindly; they
  are replaced by one rule for each way an iteration can go.
\<close>

declare str_nat.simps [simp del] ubnt_loop.simps [simp del] mndp_loop.simps [simp del]

lemma str_nat_digit: "n < 10 \<Longrightarrow> str_nat n = [48 + n]"
  by (simp add: str_nat.simps)

lemma str_nat_more: "10 \<le> n \<Longrightarrow> str_nat n = str_nat (n div 10) @ [48 + n mod 10]"
  by (subst str_nat.simps) simp

lemma ubnt_loop_end: "\<not> offset + 3 \<le> length data \<Longrightarrow> ubnt_loop data offset result = result"
  by (simp add: ubnt_loop.simps)

lemma ubnt_loop_next:
  "offset + 3 \<le> length data \<Longrightarrow> ubnt_step data offset result = Next r off
   \<Longrightarrow> ubnt_loop data offset result = ubnt_loop data off r"
  by (subst ubnt_loop.simps) simp

lemma ubnt_loop_stop:
  "ubnt_step data offset result = Stop \<Longrightarrow> ubnt_loop data offset result = result"
  by (subst ubnt_loop.simps) simp

lemma mndp_loop_end: "\<not> offset + 4 \<le> length data \<Longrightarrow> mndp_loop data offset result = result"
  by (simp add: mndp_loop.simps)

lemma mndp_loop_next:
  "offset + 4 \<le> length data \<Longrightarrow> mndp_step data offset result = Next r off
   \<Longrightarrow> mndp_loop data offset result = mndp_loop data off r"
  by (subst mndp_loop.simps) simp

lemma mndp_loop_stop:
  "mndp_step data offset result = Stop \<Longrightarrow> mndp_loop data offset result = result"
  by (subst mndp_loop.simps) simp

lemma str_of_append: "str_of (a @ b) = str_of a @ str_of b"
  by (simp add: str_of_def)


section \<open>The capture filter\<close>

lemma join_prefixed:
  "xs \<noteq> [] \<Longrightarrow> p @ join (sep @ p) xs = join sep (map (\<lambda>x. p @ x) xs)"
  by (induction sep xs rule: join.induct) auto

text \<open>
  Claim C8. \<open>_build_filter\<close> returns \<open>udp\<close> when no scanner is registered, and otherwise
  \<open>udp and (\<close>\<dots>\<open>)\<close> around the terms \<open>port P\<close> of the registered scanners, in
  registration order, joined by \<open>or\<close>. With the Ubiquiti and the MNDP scanner registered
  the filter is \<open>udp and (port 10001 or port 5678)\<close>.
\<close>

theorem build_filter_spec:
  "build_filter m =
     (if scanners m = [] then str_of ''udp''
      else str_of ''udp and ('' @
           join (str_of '' or '') (map (\<lambda>s. str_of ''port '' @ str_int (port s)) (scanners m))
           @ str_of '')'')"
proof (cases "scanners m = []")
  case True
  then show ?thesis by (simp add: build_filter_def)
next
  case False
  then have ne: "map (\<lambda>s. str_int (port s)) (scanners m) \<noteq> []" by simp
  have "str_of ''port '' @ join (str_of '' or '' @ str_of ''port '')
                              (map (\<lambda>s. str_int (port s)) (scanners m))
        = join (str_of '' or '')
            (map (\<lambda>x. str_of ''port '' @ x) (map (\<lambda>s. str_int (port s)) (scanners m)))"
    using ne by (rule join_prefixed)
  moreover have "str_of ''udp and (port '' = str_of ''udp and ('' @ str_of ''port ''"
    and "str_of '' or port '' = str_of '' or '' @ str_of ''port ''"
    by (simp_all add: str_of_def)
  ultimately show ?thesis using False
    by (simp add: build_filter_def Let_def comp_def)
qed

theorem build_filter_witness:
  "build_filter (register_scanner (MNDPScanner ascii_lower) (register_scanner UbiquitiScanner ScannerManager_init))
     = str_of ''udp and (port 10001 or port 5678)''"
  using build_filter_spec
    [of "register_scanner (MNDPScanner ascii_lower) (register_scanner UbiquitiScanner ScannerManager_init)"]
  by (simp add: register_scanner_def ScannerManager_init_def UbiquitiScanner_def MNDPScanner_def
      UbiquitiScanner_port_def MNDPScanner_port_def str_int_def str_nat_digit str_nat_more
      str_of_def)


section \<open>Decoding a synthetic Ubiquiti payload\<close>

text \<open>
  Claim C6. A payload that starts with a valid signature (\<open>01 00\<close> or \<open>02 00\<close>) and two
  further header bytes, followed from offset 4 by a MAC TLV AA:BB:CC:DD:EE:FF, a
  hostname TLV \<open>AP1\<close> and an uptime TLV 3600, sent from or to port 10001, decodes to a
  Device with that MAC, name \<open>AP1\<close> and uptime 3600.
\<close>

theorem ubnt_round_trip:
  assumes "v = 0x01 \<or> v = 0x02" and "sp = 10001 \<or> dp = 10001"
  shows "UbiquitiScanner_parse_packet t1 t2
     (udp_frame src sp dp
        ([v, 0x00, c1, c2]
         @ ubnt_tlv 0x01 [0xAA, 0xBB, 0xCC, 0xDD, 0xEE, 0xFF]
         @ ubnt_tlv 0x0B [0x41, 0x50, 0x31]
         @ ubnt_tlv 0x0E [0x00, 0x00, 0x0E, 0x10]))
   = Some \<lparr>brand = str_of ''Ubiquiti'', ip = src, mac = str_of ''AA:BB:CC:DD:EE:FF'',
           name = str_of ''AP1'', model = [], firmware = [], uptime = 3600,
           discovered_at = t1, last_seen = t2\<rparr>"
proof -
  have tlvs: "UbiquitiScanner_parse_tlv
          (ubnt_tlv 0x01 [0xAA, 0xBB, 0xCC, 0xDD, 0xEE, 0xFF]
           @ ubnt_tlv 0x0B [0x41, 0x50, 0x31] @ ubnt_tlv 0x0E [0x00, 0x00, 0x0E, 0x10])
        = \<lparr>u_mac = Some (str_of ''AA:BB:CC:DD:EE:FF''), u_ip = None, u_firmware = None,
           u_hostname = Some (str_of ''AP1''), u_model = None, u_uptime = Some 3600\<rparr>"
    by (simp add: ubnt_tlv_def slice_def UbiquitiScanner_parse_tlv_def ubnt_loop_end
        ubnt_loop_next ubnt_step_def index_byte_def ubnt_store_def ubnt_empty_def
        format_mac_def format_02X_def hex_digit_def decode_text_def strip_nul_def
        is_cont_def str_of_def)
  have len: "\<not> length ([v, 0x00, c1, c2]
         @ ubnt_tlv 0x01 [0xAA, 0xBB, 0xCC, 0xDD, 0xEE, 0xFF]
         @ ubnt_tlv 0x0B [0x41, 0x50, 0x31] @ ubnt_tlv 0x0E [0x00, 0x00, 0x0E, 0x10]) < 6"
    by (simp add: ubnt_tlv_def)
  show ?thesis
    using assms tlvs len
    by (auto simp: UbiquitiScanner_parse_packet_def udp_frame_def UbiquitiScanner_port_def
        slice_def dict_get_def new_Device_def UbiquitiScanner_brand_def str_of_def)
qed

theorem ubnt_round_trip_witness:
  "UbiquitiScanner_parse_packet 100 101
     (udp_frame (str_of ''192.168.1.20'') 10001 10001
        ([0x01, 0x00, 0x00, 0x00]
         @ ubnt_tlv 0x01 [0xAA, 0xBB, 0xCC, 0xDD, 0xEE, 0xFF]
         @ ubnt_tlv 0x0B [0x41, 0x50, 0x31]
         @ ubnt_tlv 0x0E [0x00, 0x00, 0x0E, 0x10]))
   = Some \<lparr>brand = str_of ''Ubiquiti'', ip = str_of ''192.168.1.20'',
           mac = str_of ''AA:BB:CC:DD:EE:FF'', name = str_of ''AP1'', model = [],
           firmware = [], uptime = 3600, discovered_at = 100, last_seen = 101\<rparr>"
  using ubnt_round_trip [of "0x01" 10001 10001 100 101 "str_of ''192.168.1.20''" "0x00" "0x00"]
  by simp


section \<open>The TLV loops\<close>

lemma unpack_I_be_take4: "4 \<le> length v \<Longrightarrow> unpack_I_be (take 4 v) \<noteq> None"
  by (cases v rule: unpack_I_be.cases) auto

lemma unpack_I_le_take4: "4 \<le> length v \<Longrightarrow> unpack_I_le (take 4 v) \<noteq> None"
  by (cases v rule: unpack_I_le.cases) auto

lemma ubnt_store_total: "ubnt_store t v r \<noteq> None"
  using unpack_I_be_take4 [of v] by (auto simp: ubnt_store_def split: option.splits)

lemma mndp_store_total: "mndp_store t v r \<noteq> None"
  using unpack_I_le_take4 [of v] by (auto simp: mndp_store_def split: option.splits)



lemma list3: "3 \<le> length xs \<Longrightarrow> \<exists>a b c rest. xs = a # b # c # rest"
  by (auto simp: numeral_3_eq_3 Suc_le_length_iff)

lemma list4: "4 \<le> length xs \<Longrightarrow> \<exists>a b c d rest. xs = a # b # c # d # rest"
proof -
  assume "4 \<le> length xs"
  then have "Suc (Suc (Suc (Suc 0))) \<le> length xs" by simp
  then show ?thesis by (auto simp: Suc_le_length_iff)
qed

lemma drop_more: "drop k data = pre @ rest \<Longrightarrow> drop (k + length pre) data = rest"
proof -
  assume a: "drop k data = pre @ rest"
  have "drop (k + length pre) data = drop (length pre) (drop k data)"
    by (simp add: add.commute)
  then show ?thesis using a by simp
qed

lemma ubnt_step_at:
  assumes d: "drop k data = a # b # c # rest"
  shows "ubnt_step data k r =
     (if length rest < unat b * 256 + unat c then Stop
      else (case ubnt_store a (take (unat b * 256 + unat c) rest) r of
              None \<Rightarrow> Raised
            | Some r' \<Rightarrow> Next r' (k + 3 + (unat b * 256 + unat c))))"
proof -
  have k: "k < length data" using d by (cases "k < length data") auto
  have len: "length data = k + 3 + length rest"
  proof -
    have "length (drop k data) = 3 + length rest" using d by simp
    then show ?thesis using k by simp
  qed
  have a: "index_byte data k = Some a"
    using d k by (simp add: index_byte_def nth_via_drop)
  have d1: "drop (k + 1) data = b # c # rest"
    using drop_more [of k data "[a]" "b # c # rest"] d by simp
  have d3: "drop (k + 3) data = rest"
    using drop_more [of k data "[a, b, c]" rest] d by (simp add: eval_nat_numeral)
  have h: "slice data (k + 1) (k + 3) = [b, c]"
    using d1 by (simp add: slice_def)
  have v: "slice data (k + 3) (k + 3 + n) = take n rest" for n
    using d3 by (simp add: slice_def)
  show ?thesis
    unfolding ubnt_step_def a h v using len by simp
qed

lemma mndp_step_at:
  assumes d: "drop k data = a # b # c # e # rest"
  shows "mndp_step data k r =
     (if length rest < unat c + unat e * 256 then Stop
      else (case mndp_store (unat a + unat b * 256) (take (unat c + unat e * 256) rest) r of
              None \<Rightarrow> Raised
            | Some r' \<Rightarrow> Next r' (k + 4 + (unat c + unat e * 256))))"
proof -
  have k: "k < length data" using d by (cases "k < length data") auto
  have len: "length data = k + 4 + length rest"
  proof -
    have "length (drop k data) = 4 + length rest" using d by simp
    then show ?thesis using k by simp
  qed
  have d2: "drop (k + 2) data = c # e # rest"
    using drop_more [of k data "[a, b]" "c # e # rest"] d by simp
  have d4: "drop (k + 4) data = rest"
    using drop_more [of k data "[a, b, c, e]" rest] d by (simp add: eval_nat_numeral)
  have h1: "slice data k (k + 2) = [a, b]"
    using d by (simp add: slice_def)
  have h2: "slice data (k + 2) (k + 4) = [c, e]"
    using d2 by (simp add: slice_def)
  have v: "slice data (k + 4) (k + 4 + n) = take n rest" for n
    using d4 by (simp add: slice_def)
  show ?thesis
    unfolding mndp_step_def h1 h2 v using len by simp
qed

lemma ubnt_step_no_raise:
  assumes "offset + 3 \<le> length data"
  shows "ubnt_step data offset result \<noteq> Raised"
proof -
  from assms have "3 \<le> length (drop offset data)" by simp
  then obtain a b c rest where d: "drop offset data = a # b # c # rest"
    using list3 by blast
  show ?thesis
    unfolding ubnt_step_at [OF d]
    by (simp add: ubnt_store_total split: option.splits)
qed

lemma mndp_step_no_raise:
  assumes "offset + 4 \<le> length data"
  shows "mndp_step data offset result \<noteq> Raised"
proof -
  from assms have "4 \<le> length (drop offset data)" by simp
  then obtain a b c e rest where d: "drop offset data = a # b # c # e # rest"
    using list4 by blast
  show ?thesis
    unfolding mndp_step_at [OF d]
    by (simp add: mndp_store_total split: option.splits)
qed


lemma ubnt_loop_shift:
  "ubnt_loop (pre @ data) (length pre + offset) result = ubnt_loop data offset result"
proof (induction data offset result rule: ubnt_loop.induct)
  case (1 data offset result)
  show ?case
  proof (cases "offset + 3 \<le> length data")
    case False
    then show ?thesis by (simp add: ubnt_loop_end)
  next
    case True
    then have "3 \<le> length (drop offset data)" by simp
    then obtain a b c rest where d: "drop offset data = a # b # c # rest"
      using list3 by blast
    then have d': "drop (length pre + offset) (pre @ data) = a # b # c # rest" by simp
    let ?n = "unat b * 256 + unat c"
    show ?thesis
    proof (cases "length rest < ?n")
      case True
      then show ?thesis
        by (simp add: ubnt_loop_stop ubnt_step_at [OF d] ubnt_step_at [OF d'])
    next
      case False
      obtain r' where st: "ubnt_store a (take ?n rest) result = Some r'"
        using ubnt_store_total by blast
      have s1: "ubnt_step data offset result = Next r' (offset + 3 + ?n)"
        using False st by (simp add: ubnt_step_at [OF d])
      have s2: "ubnt_step (pre @ data) (length pre + offset) result
                  = Next r' (length pre + (offset + 3 + ?n))"
        using False st by (simp add: ubnt_step_at [OF d'] add.assoc)
      have "ubnt_loop (pre @ data) (length pre + offset) result
              = ubnt_loop (pre @ data) (length pre + (offset + 3 + ?n)) r'"
        using True s2 by (simp add: ubnt_loop_next)
      also have "\<dots> = ubnt_loop data (offset + 3 + ?n) r'"
        using "1.IH" [OF True s1] .
      also have "\<dots> = ubnt_loop data offset result"
        using True s1 by (simp add: ubnt_loop_next)
      finally show ?thesis .
    qed
  qed
qed

lemma mndp_loop_shift:
  "mndp_loop (pre @ data) (length pre + offset) result = mndp_loop data offset result"
proof (induction data offset result rule: mndp_loop.induct)
  case (1 data offset result)
  show ?case
  proof (cases "offset + 4 \<le> length data")
    case False
    then show ?thesis by (simp add: mndp_loop_end)
  next
    case True
    then have "4 \<le> length (drop offset data)" by simp
    then obtain a b c e rest where d: "drop offset data = a # b # c # e # rest"
      using list4 by blast
    then have d': "drop (length pre + offset) (pre @ data) = a # b # c # e # rest" by simp
    let ?n = "unat c + unat e * 256"
    let ?t = "unat a + unat b * 256"
    show ?thesis
    proof (cases "length rest < ?n")
      case True
      then show ?thesis
        by (simp add: mndp_loop_stop mndp_step_at [OF d] mndp_step_at [OF d'])
    next
      case False
      obtain r' where st: "mndp_store ?t (take ?n rest) result = Some r'"
        using mndp_store_total by blast
      have s1: "mndp_step data offset result = Next r' (offset + 4 + ?n)"
        using False st by (simp add: mndp_step_at [OF d])
      have s2: "mndp_step (pre @ data) (length pre + offset) result
                  = Next r' (length pre + (offset + 4 + ?n))"
        using False st by (simp add: mndp_step_at [OF d'] add.assoc)
      have "mndp_loop (pre @ data) (length pre + offset) result
              = mndp_loop (pre @ data) (length pre + (offset + 4 + ?n)) r'"
        using True s2 by (simp add: mndp_loop_next)
      also have "\<dots> = mndp_loop data (offset + 4 + ?n) r'"
        using "1.IH" [OF True s1] .
      also have "\<dots> = mndp_loop data offset result"
        using True s1 by (simp add: mndp_loop_next)
      finally show ?thesis .
    qed
  qed
qed

lemma byte_of_nat: "n < 256 \<Longrightarrow> unat (of_nat n :: byte) = n"
  by (simp add: unat_of_nat)

lemma length_split_be: "n < 65536 \<Longrightarrow>
    unat (of_nat (n div 256) :: byte) * 256 + unat (of_nat (n mod 256) :: byte) = n"
  by (simp add: byte_of_nat)

lemma length_split_le: "n < 65536 \<Longrightarrow>
    unat (of_nat (n mod 256) :: byte) + unat (of_nat (n div 256) :: byte) * 256 = n"
  by (simp add: byte_of_nat)

lemma ubnt_loop_tlv:
  assumes "length v < 65536" and st: "ubnt_store t v r = Some r'"
  shows "ubnt_loop (ubnt_tlv t v @ rest) 0 r = ubnt_loop rest 0 r'"
proof -
  let ?hi = "of_nat (length v div 256) :: byte" and ?lo = "of_nat (length v mod 256) :: byte"
  have n: "unat ?hi * 256 + unat ?lo = length v"
    using assms(1) by (rule length_split_be)
  have d: "drop 0 (ubnt_tlv t v @ rest) = t # ?hi # ?lo # (v @ rest)"
    by (simp add: ubnt_tlv_def)
  have len: "length (ubnt_tlv t v) = 0 + 3 + length v"
    by (simp add: ubnt_tlv_def)
  have s: "ubnt_step (ubnt_tlv t v @ rest) 0 r = Next r' (0 + 3 + length v)"
    unfolding ubnt_step_at [OF d] n using st by simp
  have "ubnt_loop (ubnt_tlv t v @ rest) 0 r = ubnt_loop (ubnt_tlv t v @ rest) (0 + 3 + length v) r'"
    using s len by (simp add: ubnt_loop_next)
  also have "\<dots> = ubnt_loop (ubnt_tlv t v @ rest) (length (ubnt_tlv t v) + 0) r'"
    using len by simp
  also have "\<dots> = ubnt_loop rest 0 r'"
    by (rule ubnt_loop_shift)
  finally show ?thesis .
qed

lemma mndp_loop_tlv:
  assumes "t < 65536" and "length v < 65536" and st: "mndp_store t v r = Some r'"
  shows "mndp_loop (mndp_tlv t v @ rest) 0 r = mndp_loop rest 0 r'"
proof -
  let ?t0 = "of_nat (t mod 256) :: byte" and ?t1 = "of_nat (t div 256) :: byte"
  let ?lo = "of_nat (length v mod 256) :: byte" and ?hi = "of_nat (length v div 256) :: byte"
  have n: "unat ?lo + unat ?hi * 256 = length v"
    using assms(2) by (rule length_split_le)
  have ty: "unat ?t0 + unat ?t1 * 256 = t"
    using assms(1) by (rule length_split_le)
  have d: "drop 0 (mndp_tlv t v @ rest) = ?t0 # ?t1 # ?lo # ?hi # (v @ rest)"
    by (simp add: mndp_tlv_def)
  have len: "length (mndp_tlv t v) = 0 + 4 + length v"
    by (simp add: mndp_tlv_def)
  have s: "mndp_step (mndp_tlv t v @ rest) 0 r = Next r' (0 + 4 + length v)"
    unfolding mndp_step_at [OF d] n ty using st by simp
  have "mndp_loop (mndp_tlv t v @ rest) 0 r = mndp_loop (mndp_tlv t v @ rest) (0 + 4 + length v) r'"
    using s len by (simp add: mndp_loop_next)
  also have "\<dots> = mndp_loop (mndp_tlv t v @ rest) (length (mndp_tlv t v) + 0) r'"
    using len by simp
  also have "\<dots> = mndp_loop rest 0 r'"
    by (rule mndp_loop_shift)
  finally show ?thesis .
qed

lemma ubnt_loop_stream:
  "\<forall>(t, v) \<in> set tlvs. length v < 65536 \<Longrightarrow> ubnt_accumulated tlvs r = Some r'
   \<Longrightarrow> ubnt_loop (ubnt_stream tlvs @ rest) 0 r = ubnt_loop rest 0 r'"
proof (induction tlvs arbitrary: r)
  case Nil
  then show ?case by (simp add: ubnt_stream_def)
next
  case (Cons p tlvs)
  obtain t v where p: "p = (t, v)" by (cases p)
  obtain r1 where r1: "ubnt_store t v r = Some r1"
    using ubnt_store_total by blast
  have acc: "ubnt_accumulated tlvs r1 = Some r'"
    using Cons.prems(2) p r1 by simp
  have "ubnt_loop (ubnt_stream (p # tlvs) @ rest) 0 r
          = ubnt_loop (ubnt_tlv t v @ (ubnt_stream tlvs @ rest)) 0 r"
    by (simp add: ubnt_stream_def p)
  also have "\<dots> = ubnt_loop (ubnt_stream tlvs @ rest) 0 r1"
    using Cons.prems(1) p r1 by (intro ubnt_loop_tlv) auto
  also have "\<dots> = ubnt_loop rest 0 r'"
    using Cons.prems(1) acc by (intro Cons.IH) auto
  finally show ?case .
qed

lemma mndp_loop_stream:
  "\<forall>(t, v) \<in> set tlvs. t < 65536 \<and> length v < 65536 \<Longrightarrow> mndp_accumulated tlvs r = Some r'
   \<Longrightarrow> mndp_loop (mndp_stream tlvs @ rest) 0 r = mndp_loop rest 0 r'"
proof (induction tlvs arbitrary: r)
  case Nil
  then show ?case by (simp add: mndp_stream_def)
next
  case (Cons p tlvs)
  obtain t v where p: "p = (t, v)" by (cases p)
  obtain r1 where r1: "mndp_store t v r = Some r1"
    using mndp_store_total by blast
  have acc: "mndp_accumulated tlvs r1 = Some r'"
    using Cons.prems(2) p r1 by simp
  have "mndp_loop (mndp_stream (p # tlvs) @ rest) 0 r
          = mndp_loop (mndp_tlv t v @ (mndp_stream tlvs @ rest)) 0 r"
    by (simp add: mndp_stream_def p)
  also have "\<dots> = mndp_loop (mndp_stream tlvs @ rest) 0 r1"
    using Cons.prems(1) p r1 by (intro mndp_loop_tlv) auto
  also have "\<dots> = mndp_loop rest 0 r'"
    using Cons.prems(1) acc by (intro Cons.IH) auto
  finally show ?case .
qed

lemma ubnt_accumulated_total: "\<exists>r'. ubnt_accumulated tlvs r = Some r'"
proof (induction tlvs arbitrary: r)
  case Nil
  show ?case by simp
next
  case (Cons p tlvs)
  obtain t v where p: "p = (t, v)" by (cases p)
  obtain r1 where "ubnt_store t v r = Some r1" using ubnt_store_total by blast
  then show ?case using Cons.IH [of r1] p by simp
qed

lemma mndp_accumulated_total: "\<exists>r'. mndp_accumulated tlvs r = Some r'"
proof (induction tlvs arbitrary: r)
  case Nil
  show ?case by simp
next
  case (Cons p tlvs)
  obtain t v where p: "p = (t, v)" by (cases p)
  obtain r1 where "mndp_store t v r = Some r1" using mndp_store_total by blast
  then show ?case using Cons.IH [of r1] p by simp
qed

lemma ubnt_loop_tail:
  assumes "length tail < 3 \<or> ubnt_overrun tail"
  shows "ubnt_loop tail 0 r = r"
proof (cases "length tail < 3")
  case True
  then show ?thesis by (simp add: ubnt_loop_end)
next
  case False
  then have o: "ubnt_overrun tail" using assms by simp
  from False have "3 \<le> length tail" by simp
  then obtain a b c rest where t: "tail = a # b # c # rest" using list3 by blast
  then have d: "drop 0 tail = a # b # c # rest" by simp
  have "ubnt_step tail 0 r = Stop"
    unfolding ubnt_step_at [OF d] using o t by (simp add: ubnt_overrun_def)
  then show ?thesis by (rule ubnt_loop_stop)
qed

lemma mndp_loop_tail:
  assumes "length tail < 4 \<or> mndp_overrun tail"
  shows "mndp_loop tail 0 r = r"
proof (cases "length tail < 4")
  case True
  then show ?thesis by (simp add: mndp_loop_end)
next
  case False
  then have o: "mndp_overrun tail" using assms by simp
  from False have "4 \<le> length tail" by simp
  then obtain a b c e rest where t: "tail = a # b # c # e # rest" using list4 by blast
  then have d: "drop 0 tail = a # b # c # e # rest" by simp
  have "mndp_step tail 0 r = Stop"
    unfolding mndp_step_at [OF d] using o t by (simp add: mndp_overrun_def eval_nat_numeral)
  then show ?thesis by (rule mndp_loop_stop)
qed

lemma byte_bound: "unat (b :: byte) < 256"
  using unsigned_less [of b, where ?'a = nat] by simp

lemma be_pair:
  fixes b c :: byte
  defines "n \<equiv> unat b * 256 + unat c"
  shows "of_nat (n div 256) = b" and "of_nat (n mod 256) = c" and "n < 65536"
proof -
  have b: "unat b < 256" and c: "unat c < 256" by (rule byte_bound)+
  have "n div 256 = unat b" and "n mod 256 = unat c"
    using c by (simp_all add: n_def)
  then show "of_nat (n div 256) = b" and "of_nat (n mod 256) = c" by simp_all
  show "n < 65536" using b c by (simp add: n_def)
qed

lemma le_pair:
  fixes b c :: byte
  defines "n \<equiv> unat b + unat c * 256"
  shows "of_nat (n mod 256) = b" and "of_nat (n div 256) = c" and "n < 65536"
proof -
  have b: "unat b < 256" and c: "unat c < 256" by (rule byte_bound)+
  have "n div 256 = unat c" and "n mod 256 = unat b"
    using b by (simp_all add: n_def)
  then show "of_nat (n mod 256) = b" and "of_nat (n div 256) = c" by simp_all
  show "n < 65536" using b c by (simp add: n_def)
qed

lemma ubnt_payload_shape:
  "\<exists>tlvs tail. data = ubnt_stream tlvs @ tail \<and> (\<forall>(t, v) \<in> set tlvs. length v < 65536)
     \<and> (length tail < 3 \<or> ubnt_overrun tail)"
proof (induction "length data" arbitrary: data rule: less_induct)
  case less
  show ?case
  proof (cases "length data < 3 \<or> ubnt_overrun data")
    case True
    have "data = ubnt_stream [] @ data" by (simp add: ubnt_stream_def)
    with True show ?thesis by (intro exI [of _ "[]"] exI [of _ data]) simp
  next
    case False
    then have "3 \<le> length data" by simp
    then obtain a b c rest where d: "data = a # b # c # rest" using list3 by blast
    define n where "n = unat b * 256 + unat c"
    have n: "n \<le> length rest" using False d by (simp add: ubnt_overrun_def n_def)
    have tlv: "ubnt_tlv a (take n rest) = a # b # c # take n rest"
      using n be_pair(1,2) [of b c] by (simp add: ubnt_tlv_def n_def min_absorb2)
    have "length (drop n rest) < length data" using d by simp
    from less [OF this] obtain tlvs tail where
      t: "drop n rest = ubnt_stream tlvs @ tail" "\<forall>(t, v) \<in> set tlvs. length v < 65536"
         "length tail < 3 \<or> ubnt_overrun tail" by blast
    have "data = ubnt_tlv a (take n rest) @ drop n rest" using d tlv by simp
    then have "data = ubnt_stream ((a, take n rest) # tlvs) @ tail"
      using t(1) by (simp add: ubnt_stream_def)
    moreover have "\<forall>(t, v) \<in> set ((a, take n rest) # tlvs). length v < 65536"
      using t(2) n be_pair(3) [of b c] by (simp add: n_def min_absorb2)
    ultimately show ?thesis using t(3) by blast
  qed
qed

lemma mndp_payload_shape:
  "\<exists>tlvs tail. data = mndp_stream tlvs @ tail
     \<and> (\<forall>(t, v) \<in> set tlvs. t < 65536 \<and> length v < 65536)
     \<and> (length tail < 4 \<or> mndp_overrun tail)"
proof (induction "length data" arbitrary: data rule: less_induct)
  case less
  show ?case
  proof (cases "length data < 4 \<or> mndp_overrun data")
    case True
    have "data = mndp_stream [] @ data" by (simp add: mndp_stream_def)
    with True show ?thesis by (intro exI [of _ "[]"] exI [of _ data]) simp
  next
    case False
    then have "4 \<le> length data" by simp
    then obtain a b c e rest where d: "data = a # b # c # e # rest" using list4 by blast
    define n where "n = unat c + unat e * 256"
    define ty where "ty = unat a + unat b * 256"
    have n: "n \<le> length rest" using False d by (simp add: mndp_overrun_def n_def eval_nat_numeral)
    have tlv: "mndp_tlv ty (take n rest) = a # b # c # e # take n rest"
      using n le_pair(1,2) [of c e] le_pair(1,2) [of a b]
      by (simp add: mndp_tlv_def n_def ty_def min_absorb2)
    have "length (drop n rest) < length data" using d by simp
    from less [OF this] obtain tlvs tail where
      t: "drop n rest = mndp_stream tlvs @ tail"
         "\<forall>(t, v) \<in> set tlvs. t < 65536 \<and> length v < 65536"
         "length tail < 4 \<or> mndp_overrun tail" by blast
    have "data = mndp_tlv ty (take n rest) @ drop n rest" using d tlv by simp
    then have "data = mndp_stream ((ty, take n rest) # tlvs) @ tail"
      using t(1) by (simp add: mndp_stream_def)
    moreover have "\<forall>(t, v) \<in> set ((ty, take n rest) # tlvs). t < 65536 \<and> length v < 65536"
      using t(2) n le_pair(3) [of c e] le_pair(3) [of a b] by (simp add: n_def ty_def min_absorb2)
    ultimately show ?thesis using t(3) by blast
  qed
qed


text \<open>
  Claim C5. In both decoders no iteration of the TLV loop raises: whenever the loop guard
  holds, the iteration either goes on to the next record or stops. Every payload is a
  sequence of complete TLV records followed by a rest that is too short for a header or
  whose header declares a length past the end of the buffer; parsing stops at that rest
  and returns exactly the dict accumulated from the complete records before it. The loop
  is a total function, so the parse terminates on every payload.
\<close>

theorem tlv_parse_soft_stop:
  "(offset + 3 \<le> length data \<longrightarrow> ubnt_step data offset uresult \<noteq> Raised) \<and>
   (offset + 4 \<le> length data \<longrightarrow> mndp_step data offset mresult \<noteq> Raised) \<and>
   (\<exists>tlvs tail. data = ubnt_stream tlvs @ tail \<and> (\<forall>(t, v) \<in> set tlvs. length v < 65536)
      \<and> (length tail < 3 \<or> ubnt_overrun tail)) \<and>
   (\<exists>tlvs tail. data = mndp_stream tlvs @ tail
      \<and> (\<forall>(t, v) \<in> set tlvs. t < 65536 \<and> length v < 65536)
      \<and> (length tail < 4 \<or> mndp_overrun tail)) \<and>
   ((\<forall>(t, v) \<in> set utlvs. length v < 65536) \<and> (length utail < 3 \<or> ubnt_overrun utail) \<longrightarrow>
      ubnt_accumulated utlvs ubnt_empty
        = Some (UbiquitiScanner_parse_tlv (ubnt_stream utlvs @ utail))) \<and>
   ((\<forall>(t, v) \<in> set mtlvs. t < 65536 \<and> length v < 65536)
      \<and> (length mtail < 4 \<or> mndp_overrun mtail) \<longrightarrow>
      mndp_accumulated mtlvs mndp_empty
        = Some (MNDPScanner_parse_tlv (mndp_stream mtlvs @ mtail)))"
proof (intro conjI impI)
  assume "offset + 3 \<le> length data"
  then show "ubnt_step data offset uresult \<noteq> Raised" by (rule ubnt_step_no_raise)
next
  assume "offset + 4 \<le> length data"
  then show "mndp_step data offset mresult \<noteq> Raised" by (rule mndp_step_no_raise)
next
  show "\<exists>tlvs tail. data = ubnt_stream tlvs @ tail \<and> (\<forall>(t, v) \<in> set tlvs. length v < 65536)
      \<and> (length tail < 3 \<or> ubnt_overrun tail)"
    by (rule ubnt_payload_shape)
next
  show "\<exists>tlvs tail. data = mndp_stream tlvs @ tail
      \<and> (\<forall>(t, v) \<in> set tlvs. t < 65536 \<and> length v < 65536)
      \<and> (length tail < 4 \<or> mndp_overrun tail)"
    by (rule mndp_payload_shape)
next
  assume a: "(\<forall>(t, v) \<in> set utlvs. length v < 65536) \<and> (length utail < 3 \<or> ubnt_overrun utail)"
  obtain r where r: "ubnt_accumulated utlvs ubnt_empty = Some r"
    using ubnt_accumulated_total by blast
  have "UbiquitiScanner_parse_tlv (ubnt_stream utlvs @ utail) = ubnt_loop utail 0 r"
    unfolding UbiquitiScanner_parse_tlv_def using a r by (intro ubnt_loop_stream) auto
  also have "\<dots> = r" using a by (intro ubnt_loop_tail) auto
  finally show "ubnt_accumulated utlvs ubnt_empty
        = Some (UbiquitiScanner_parse_tlv (ubnt_stream utlvs @ utail))"
    using r by simp
next
  assume a: "(\<forall>(t, v) \<in> set mtlvs. t < 65536 \<and> length v < 65536)
      \<and> (length mtail < 4 \<or> mndp_overrun mtail)"
  obtain r where r: "mndp_accumulated mtlvs mndp_empty = Some r"
    using mndp_accumulated_total by blast
  have "MNDPScanner_parse_tlv (mndp_stream mtlvs @ mtail) = mndp_loop mtail 0 r"
    unfolding MNDPScanner_parse_tlv_def using a r by (intro mndp_loop_stream) auto
  also have "\<dots> = r" using a by (intro mndp_loop_tail) auto
  finally show "mndp_accumulated mtlvs mndp_empty
        = Some (MNDPScanner_parse_tlv (mndp_stream mtlvs @ mtail))"
    using r by simp
qed

theorem tlv_parse_soft_stop_witness:
  "ubnt_step [0x0B, 0x00, 0x01, 0x41] 0 ubnt_empty \<noteq> Raised \<and>
   mndp_step [0x0B, 0x00, 0x01, 0x41] 0 mndp_empty \<noteq> Raised \<and>
   UbiquitiScanner_parse_tlv
     (ubnt_stream [(0x01, [0xAA, 0xBB, 0xCC, 0xDD, 0xEE, 0xFF]), (0x0B, [0x41, 0x50, 0x31])]
      @ [0x03, 0x00, 0x10, 0x76])
     = \<lparr>u_mac = Some (str_of ''AA:BB:CC:DD:EE:FF''), u_ip = None, u_firmware = None,
        u_hostname = Some (str_of ''AP1''), u_model = None, u_uptime = None\<rparr> \<and>
   MNDPScanner_parse_tlv
     (mndp_stream [(0x0001, [0xAA, 0xBB, 0xCC, 0xDD, 0xEE, 0xFF]), (0x0005, [0x52, 0x31])]
      @ [0x07, 0x00, 0x09, 0x00, 0x36])
     = \<lparr>m_mac = Some (str_of ''AA:BB:CC:DD:EE:FF''), m_identity = Some (str_of ''R1''),
        m_version = None, m_platform = None, m_board = None, m_uptime = None, m_ip = None\<rparr>"
  using tlv_parse_soft_stop
    [of 0 "[0x0B, 0x00, 0x01, 0x41]" ubnt_empty mndp_empty
        "[(0x01, [0xAA, 0xBB, 0xCC, 0xDD, 0xEE, 0xFF]), (0x0B, [0x41, 0x50, 0x31])]"
        "[0x03, 0x00, 0x10, 0x76]"
        "[(0x0001, [0xAA, 0xBB, 0xCC, 0xDD, 0xEE, 0xFF]), (0x0005, [0x52, 0x31])]"
        "[0x07, 0x00, 0x09, 0x00, 0x36]"]
  by (simp add: ubnt_overrun_def mndp_overrun_def ubnt_store_def mndp_store_def ubnt_empty_def
      mndp_empty_def format_mac_def format_02X_def hex_digit_def decode_text_def strip_nul_def
      is_cont_def str_of_def)


section \<open>Streams of TLV records and the MAC field\<close>

lemma ubnt_stream_append: "ubnt_stream (xs @ ys) = ubnt_stream xs @ ubnt_stream ys"
  by (simp add: ubnt_stream_def)

lemma mndp_stream_append: "mndp_stream (xs @ ys) = mndp_stream xs @ mndp_stream ys"
  by (simp add: mndp_stream_def)

lemma ubnt_stream_single: "ubnt_stream [(t, v)] = ubnt_tlv t v"
  by (simp add: ubnt_stream_def)

lemma mndp_stream_single: "mndp_stream [(t, v)] = mndp_tlv t v"
  by (simp add: mndp_stream_def)

lemma ubnt_accumulated_append:
  "ubnt_accumulated (xs @ ys) r =
     (case ubnt_accumulated xs r of None \<Rightarrow> None | Some r' \<Rightarrow> ubnt_accumulated ys r')"
  by (induction xs r rule: ubnt_accumulated.induct) (auto split: option.splits)

lemma mndp_accumulated_append:
  "mndp_accumulated (xs @ ys) r =
     (case mndp_accumulated xs r of None \<Rightarrow> None | Some r' \<Rightarrow> mndp_accumulated ys r')"
  by (induction xs r rule: mndp_accumulated.induct) (auto split: option.splits)

lemma join_nonempty: "x \<noteq> [] \<Longrightarrow> join sep (x # xs) \<noteq> []"
  by (cases xs) auto

lemma format_mac_nonempty: "6 \<le> length v \<Longrightarrow> format_mac (take 6 v) \<noteq> []"
proof -
  assume "6 \<le> length v"
  then obtain a rest where "take 6 v = a # rest" by (cases v) auto
  then show ?thesis by (simp add: format_mac_def join_nonempty format_02X_def)
qed

lemma ubnt_store_keeps_mac:
  "ubnt_store t v r = Some r' \<Longrightarrow> \<exists>y. u_mac r = Some y \<and> y \<noteq> []
   \<Longrightarrow> \<exists>y. u_mac r' = Some y \<and> y \<noteq> []"
  by (auto simp: ubnt_store_def format_mac_nonempty split: if_splits option.splits)

lemma mndp_store_keeps_mac:
  "mndp_store t v r = Some r' \<Longrightarrow> \<exists>y. m_mac r = Some y \<and> y \<noteq> []
   \<Longrightarrow> \<exists>y. m_mac r' = Some y \<and> y \<noteq> []"
  by (auto simp: mndp_store_def format_mac_nonempty split: if_splits option.splits)

lemma ubnt_step_Next_store:
  "ubnt_step data off r = Next r' off' \<Longrightarrow> \<exists>t v. ubnt_store t v r = Some r'"
  by (auto simp: ubnt_step_def split: option.splits if_splits)

lemma mndp_step_Next_store:
  "mndp_step data off r = Next r' off' \<Longrightarrow> \<exists>t v. mndp_store t v r = Some r'"
  by (auto simp: mndp_step_def split: option.splits if_splits)

lemma ubnt_loop_keeps_mac:
  "\<exists>y. u_mac r = Some y \<and> y \<noteq> [] \<Longrightarrow> \<exists>y. u_mac (ubnt_loop data off r) = Some y \<and> y \<noteq> []"
proof (induction data off r rule: ubnt_loop.induct)
  case (1 data offset result)
  show ?case
  proof (cases "offset + 3 \<le> length data")
    case False
    then show ?thesis using "1.prems" by (simp add: ubnt_loop_end)
  next
    case True
    show ?thesis
    proof (cases "ubnt_step data offset result")
      case (Next r' off')
      then obtain t v where "ubnt_store t v result = Some r'"
        using ubnt_step_Next_store by blast
      then have "\<exists>y. u_mac r' = Some y \<and> y \<noteq> []"
        using "1.prems" by (rule ubnt_store_keeps_mac)
      then have "\<exists>y. u_mac (ubnt_loop data off' r') = Some y \<and> y \<noteq> []"
        using "1.IH" [OF True Next] by simp
      then show ?thesis using True Next by (simp add: ubnt_loop_next)
    next
      case Stop
      then show ?thesis using "1.prems" by (simp add: ubnt_loop_stop)
    next
      case Raised
      then show ?thesis using True ubnt_step_no_raise by blast
    qed
  qed
qed

lemma mndp_loop_keeps_mac:
  "\<exists>y. m_mac r = Some y \<and> y \<noteq> [] \<Longrightarrow> \<exists>y. m_mac (mndp_loop data off r) = Some y \<and> y \<noteq> []"
proof (induction data off r rule: mndp_loop.induct)
  case (1 data offset result)
  show ?case
  proof (cases "offset + 4 \<le> length data")
    case False
    then show ?thesis using "1.prems" by (simp add: mndp_loop_end)
  next
    case True
    show ?thesis
    proof (cases "mndp_step data offset result")
      case (Next r' off')
      then obtain t v where "mndp_store t v result = Some r'"
        using mndp_step_Next_store by blast
      then have "\<exists>y. m_mac r' = Some y \<and> y \<noteq> []"
        using "1.prems" by (rule mndp_store_keeps_mac)
      then have "\<exists>y. m_mac (mndp_loop data off' r') = Some y \<and> y \<noteq> []"
        using "1.IH" [OF True Next] by simp
      then show ?thesis using True Next by (simp add: mndp_loop_next)
    next
      case Stop
      then show ?thesis using "1.prems" by (simp add: mndp_loop_stop)
    next
      case Raised
      then show ?thesis using True mndp_step_no_raise by blast
    qed
  qed
qed

lemma ubnt_short_mac: "length v < 6 \<Longrightarrow> ubnt_store 0x01 v r = Some r"
  by (simp add: ubnt_store_def)

lemma mndp_short_mac: "length v < 6 \<Longrightarrow> mndp_store 0x0001 v r = Some r"
  by (simp add: mndp_store_def)

lemma ubnt_skip_short:
  assumes "length v < 6"
  shows "ubnt_loop (seen @ ubnt_tlv 0x01 v @ rest) (length seen) r
           = ubnt_loop (seen @ rest) (length seen) r"
proof -
  have "ubnt_loop (seen @ ubnt_tlv 0x01 v @ rest) (length seen + 0) r
          = ubnt_loop (ubnt_tlv 0x01 v @ rest) 0 r"
    by (rule ubnt_loop_shift)
  also have "\<dots> = ubnt_loop rest 0 r"
    using assms by (intro ubnt_loop_tlv ubnt_short_mac) auto
  also have "\<dots> = ubnt_loop (seen @ rest) (length seen + 0) r"
    by (rule ubnt_loop_shift [symmetric])
  finally show ?thesis by simp
qed

lemma mndp_skip_short:
  assumes "length v < 6"
  shows "mndp_loop (seen @ mndp_tlv 0x0001 v @ rest) (length seen) r
           = mndp_loop (seen @ rest) (length seen) r"
proof -
  have "mndp_loop (seen @ mndp_tlv 0x0001 v @ rest) (length seen + 0) r
          = mndp_loop (mndp_tlv 0x0001 v @ rest) 0 r"
    by (rule mndp_loop_shift)
  also have "\<dots> = mndp_loop rest 0 r"
    using assms by (intro mndp_loop_tlv mndp_short_mac) auto
  also have "\<dots> = mndp_loop (seen @ rest) (length seen + 0) r"
    by (rule mndp_loop_shift [symmetric])
  finally show ?thesis by simp
qed

lemma ubnt_parse_after_mac:
  assumes enc: "\<forall>(t, x) \<in> set tlvs. length x < 65536"
    and m: "6 \<le> length m" "length m < 65536"
  shows "\<exists>y. u_mac (UbiquitiScanner_parse_tlv (ubnt_stream tlvs @ ubnt_tlv 0x01 m @ rest)) = Some y
            \<and> y \<noteq> []"
proof -
  obtain r where r: "ubnt_accumulated tlvs ubnt_empty = Some r"
    using ubnt_accumulated_total by blast
  let ?r' = "r\<lparr>u_mac := Some (format_mac (take 6 m))\<rparr>"
  have st: "ubnt_store 0x01 m r = Some ?r'" using m by (simp add: ubnt_store_def)
  have "UbiquitiScanner_parse_tlv (ubnt_stream tlvs @ ubnt_tlv 0x01 m @ rest)
          = ubnt_loop (ubnt_tlv 0x01 m @ rest) 0 r"
    unfolding UbiquitiScanner_parse_tlv_def using enc r by (rule ubnt_loop_stream)
  also have "\<dots> = ubnt_loop rest 0 ?r'"
    using m(2) st by (rule ubnt_loop_tlv)
  finally show ?thesis
    using ubnt_loop_keeps_mac [of ?r' rest 0] m(1) by (simp add: format_mac_nonempty)
qed

lemma mndp_parse_after_mac:
  assumes enc: "\<forall>(t, x) \<in> set tlvs. t < 65536 \<and> length x < 65536"
    and m: "6 \<le> length m" "length m < 65536"
  shows "\<exists>y. m_mac (MNDPScanner_parse_tlv (mndp_stream tlvs @ mndp_tlv 0x0001 m @ rest)) = Some y
            \<and> y \<noteq> []"
proof -
  obtain r where r: "mndp_accumulated tlvs mndp_empty = Some r"
    using mndp_accumulated_total by blast
  let ?r' = "r\<lparr>m_mac := Some (format_mac (take 6 m))\<rparr>"
  have st: "mndp_store 0x0001 m r = Some ?r'" using m by (simp add: mndp_store_def)
  have "MNDPScanner_parse_tlv (mndp_stream tlvs @ mndp_tlv 0x0001 m @ rest)
          = mndp_loop (mndp_tlv 0x0001 m @ rest) 0 r"
    unfolding MNDPScanner_parse_tlv_def using enc r by (rule mndp_loop_stream)
  also have "\<dots> = mndp_loop rest 0 ?r'"
    using _ m(2) st by (rule mndp_loop_tlv) simp
  finally show ?thesis
    using mndp_loop_keeps_mac [of ?r' rest 0] m(1) by (simp add: format_mac_nonempty)
qed


lemma ubnt_packet_body:
  assumes "sp = 10001 \<or> dp = 10001" and "s = 0x01 \<or> s = 0x02" and "2 \<le> length body"
  shows "UbiquitiScanner_parse_packet t1 t2 (udp_frame src sp dp ([s, 0x00, c1, c2] @ body))
     = (let tlv_data = UbiquitiScanner_parse_tlv body;
            mac' = dict_get (u_mac tlv_data) []
        in if mac' = [] then None
           else Some (new_Device t1 t2 UbiquitiScanner_brand (dict_get (u_ip tlv_data) src) mac'
                   (dict_get (u_hostname tlv_data) (str_of ''Unknown''))
                   (dict_get (u_model tlv_data) []) (dict_get (u_firmware tlv_data) [])
                   (int (dict_get (u_uptime tlv_data) 0))))"
  using assms
  by (auto simp: UbiquitiScanner_parse_packet_def udp_frame_def UbiquitiScanner_port_def
      slice_def Let_def)

lemma mndp_packet_body:
  assumes "sp = 5678 \<or> dp = 5678" and "4 \<le> length payload"
  shows "MNDPScanner_parse_packet lw t1 t2 (udp_frame src sp dp payload)
     = (let tlv_data = MNDPScanner_parse_tlv payload;
            mac' = dict_get (m_mac tlv_data) [];
            platform = dict_get (m_platform tlv_data) [];
            board = dict_get (m_board tlv_data) []
        in if mac' = [] then None
           else Some (new_Device t1 t2 (detect_brand lw platform board)
                   (dict_get (m_ip tlv_data) src) mac'
                   (dict_get (m_identity tlv_data) (str_of ''Unknown''))
                   (if board \<noteq> [] then board else platform)
                   (dict_get (m_version tlv_data) [])
                   (int (dict_get (m_uptime tlv_data) 0))))"
  using assms
  by (auto simp: MNDPScanner_parse_packet_def udp_frame_def MNDPScanner_port_def Let_def)


text \<open>
  Claim C10. In both decoders a MAC TLV whose value has fewer than 6 bytes and fits the
  buffer is skipped: wherever it stands in the buffer, the loop goes on behind it with
  the dict unchanged, as if the record were not there. A payload that holds such a
  record and, later, a MAC TLV of at least 6 bytes decodes to the same Device as the
  payload without the short record, and it does decode.
\<close>

theorem short_mac_tlv_skipped:
  assumes short: "length v < 6"
    and good: "6 \<le> length m" "length m < 65536"
    and uenc: "\<forall>(t, x) \<in> set (upre @ umid). length x < 65536"
    and menc: "\<forall>(t, x) \<in> set (mpre @ mmid). t < 65536 \<and> length x < 65536"
    and sig: "s = 0x01 \<or> s = 0x02"
    and uport: "usp = 10001 \<or> udst = 10001"
    and mport: "msp = 5678 \<or> mdp = 5678"
  shows "ubnt_loop (seen @ ubnt_tlv 0x01 v @ rest) (length seen) ur
           = ubnt_loop (seen @ rest) (length seen) ur
       \<and> mndp_loop (seen @ mndp_tlv 0x0001 v @ rest) (length seen) mr
           = mndp_loop (seen @ rest) (length seen) mr
       \<and> UbiquitiScanner_parse_packet t1 t2 (udp_frame src usp udst
            ([s, 0x00, c1, c2] @ ubnt_stream upre @ ubnt_tlv 0x01 v
               @ ubnt_stream umid @ ubnt_tlv 0x01 m @ rest))
           = UbiquitiScanner_parse_packet t1 t2 (udp_frame src usp udst
               ([s, 0x00, c1, c2] @ ubnt_stream upre @ ubnt_stream umid @ ubnt_tlv 0x01 m @ rest))
       \<and> UbiquitiScanner_parse_packet t1 t2 (udp_frame src usp udst
            ([s, 0x00, c1, c2] @ ubnt_stream upre @ ubnt_tlv 0x01 v
               @ ubnt_stream umid @ ubnt_tlv 0x01 m @ rest)) \<noteq> None
       \<and> MNDPScanner_parse_packet lw t1 t2 (udp_frame src msp mdp
            (mndp_stream mpre @ mndp_tlv 0x0001 v @ mndp_stream mmid @ mndp_tlv 0x0001 m @ rest))
           = MNDPScanner_parse_packet lw t1 t2 (udp_frame src msp mdp
               (mndp_stream mpre @ mndp_stream mmid @ mndp_tlv 0x0001 m @ rest))
       \<and> MNDPScanner_parse_packet lw t1 t2 (udp_frame src msp mdp
            (mndp_stream mpre @ mndp_tlv 0x0001 v @ mndp_stream mmid @ mndp_tlv 0x0001 m @ rest))
           \<noteq> None"
proof (intro conjI)
  show "ubnt_loop (seen @ ubnt_tlv 0x01 v @ rest) (length seen) ur
           = ubnt_loop (seen @ rest) (length seen) ur"
    using short by (rule ubnt_skip_short)
  show "mndp_loop (seen @ mndp_tlv 0x0001 v @ rest) (length seen) mr
           = mndp_loop (seen @ rest) (length seen) mr"
    using short by (rule mndp_skip_short)
next
  let ?X = "ubnt_stream umid @ ubnt_tlv 0x01 m @ rest"
  let ?with = "ubnt_stream upre @ ubnt_tlv 0x01 v @ ?X"
  let ?without = "ubnt_stream upre @ ?X"
  obtain r where r: "ubnt_accumulated upre ubnt_empty = Some r"
    using ubnt_accumulated_total by blast
  have pre: "\<forall>(t, x) \<in> set upre. length x < 65536" using uenc by auto
  have "UbiquitiScanner_parse_tlv ?with = ubnt_loop (ubnt_tlv 0x01 v @ ?X) 0 r"
    unfolding UbiquitiScanner_parse_tlv_def using pre r by (rule ubnt_loop_stream)
  also have "\<dots> = ubnt_loop ?X 0 r"
    using ubnt_skip_short [OF short, of "[]" ?X r] by simp
  also have "\<dots> = UbiquitiScanner_parse_tlv ?without"
    unfolding UbiquitiScanner_parse_tlv_def using pre r by (rule ubnt_loop_stream [symmetric])
  finally have eq: "UbiquitiScanner_parse_tlv ?with = UbiquitiScanner_parse_tlv ?without" .
  have l1: "2 \<le> length ?with" and l2: "2 \<le> length ?without"
    using good(1) by (simp_all add: ubnt_tlv_def)
  have "\<exists>y. u_mac (UbiquitiScanner_parse_tlv
                 (ubnt_stream (upre @ umid) @ ubnt_tlv 0x01 m @ rest)) = Some y \<and> y \<noteq> []"
    using uenc good by (rule ubnt_parse_after_mac)
  then have mac: "dict_get (u_mac (UbiquitiScanner_parse_tlv ?with)) [] \<noteq> []"
    unfolding eq by (auto simp: ubnt_stream_append dict_get_def)
  show "UbiquitiScanner_parse_packet t1 t2 (udp_frame src usp udst ([s, 0x00, c1, c2] @ ?with))
          = UbiquitiScanner_parse_packet t1 t2 (udp_frame src usp udst ([s, 0x00, c1, c2] @ ?without))"
    unfolding ubnt_packet_body [OF uport sig l1] ubnt_packet_body [OF uport sig l2] eq ..
  show "UbiquitiScanner_parse_packet t1 t2 (udp_frame src usp udst ([s, 0x00, c1, c2] @ ?with))
          \<noteq> None"
    unfolding ubnt_packet_body [OF uport sig l1] using mac by (simp add: Let_def)
next
  let ?X = "mndp_stream mmid @ mndp_tlv 0x0001 m @ rest"
  let ?with = "mndp_stream mpre @ mndp_tlv 0x0001 v @ ?X"
  let ?without = "mndp_stream mpre @ ?X"
  obtain r where r: "mndp_accumulated mpre mndp_empty = Some r"
    using mndp_accumulated_total by blast
  have pre: "\<forall>(t, x) \<in> set mpre. t < 65536 \<and> length x < 65536" using menc by auto
  have "MNDPScanner_parse_tlv ?with = mndp_loop (mndp_tlv 0x0001 v @ ?X) 0 r"
    unfolding MNDPScanner_parse_tlv_def using pre r by (rule mndp_loop_stream)
  also have "\<dots> = mndp_loop ?X 0 r"
    using mndp_skip_short [OF short, of "[]" ?X r] by simp
  also have "\<dots> = MNDPScanner_parse_tlv ?without"
    unfolding MNDPScanner_parse_tlv_def using pre r by (rule mndp_loop_stream [symmetric])
  finally have eq: "MNDPScanner_parse_tlv ?with = MNDPScanner_parse_tlv ?without" .
  have l1: "4 \<le> length ?with" and l2: "4 \<le> length ?without"
    using good(1) by (simp_all add: mndp_tlv_def)
  have "\<exists>y. m_mac (MNDPScanner_parse_tlv
                 (mndp_stream (mpre @ mmid) @ mndp_tlv 0x0001 m @ rest)) = Some y \<and> y \<noteq> []"
    using menc good by (rule mndp_parse_after_mac)
  then have mac: "dict_get (m_mac (MNDPScanner_parse_tlv ?with)) [] \<noteq> []"
    unfolding eq by (auto simp: mndp_stream_append dict_get_def)
  show "MNDPScanner_parse_packet lw t1 t2 (udp_frame src msp mdp ?with)
          = MNDPScanner_parse_packet lw t1 t2 (udp_frame src msp mdp ?without)"
    unfolding mndp_packet_body [OF mport l1] mndp_packet_body [OF mport l2] eq ..
  show "MNDPScanner_parse_packet lw t1 t2 (udp_frame src msp mdp ?with) \<noteq> None"
    unfolding mndp_packet_body [OF mport l1] using mac by (simp add: Let_def)
qed

theorem short_mac_tlv_skipped_witness:
  "UbiquitiScanner_parse_packet 100 101 (udp_frame (str_of ''10.0.0.9'') 10001 10001
      ([0x01, 0x00, 0x00, 0x00] @ ubnt_tlv 0x01 [0x11, 0x22]
         @ ubnt_tlv 0x0B [0x41, 0x50, 0x31] @ ubnt_tlv 0x01 [0xAA, 0xBB, 0xCC, 0xDD, 0xEE, 0xFF]))
     = Some \<lparr>brand = str_of ''Ubiquiti'', ip = str_of ''10.0.0.9'',
             mac = str_of ''AA:BB:CC:DD:EE:FF'', name = str_of ''AP1'', model = [],
             firmware = [], uptime = 0, discovered_at = 100, last_seen = 101\<rparr>
   \<and> MNDPScanner_parse_packet ascii_lower 100 101 (udp_frame (str_of ''10.0.0.9'') 5678 5678
      (mndp_tlv 0x0001 [0x11, 0x22] @ mndp_tlv 0x0005 [0x52, 0x31]
         @ mndp_tlv 0x0001 [0xAA, 0xBB, 0xCC, 0xDD, 0xEE, 0xFF]))
     = Some \<lparr>brand = str_of ''Mikrotik/MNDP'', ip = str_of ''10.0.0.9'',
             mac = str_of ''AA:BB:CC:DD:EE:FF'', name = str_of ''R1'', model = [],
             firmware = [], uptime = 0, discovered_at = 100, last_seen = 101\<rparr>"
proof -
  have h: "length [0x11, 0x22 :: byte] < 6"
    "6 \<le> length [0xAA, 0xBB, 0xCC, 0xDD, 0xEE, 0xFF :: byte]"
    "length [0xAA, 0xBB, 0xCC, 0xDD, 0xEE, 0xFF :: byte] < 65536"
    "\<forall>(t, x) \<in> set ([] @ [(0x0B :: byte, [0x41, 0x50, 0x31 :: byte])]). length x < 65536"
    "\<forall>(t, x) \<in> set ([] @ [(0x0005 :: nat, [0x52, 0x31 :: byte])]). t < 65536 \<and> length x < 65536"
    "(0x01 :: byte) = 0x01 \<or> (0x01 :: byte) = 0x02"
    "(10001 :: int) = 10001 \<or> (10001 :: int) = 10001"
    "(5678 :: int) = 5678 \<or> (5678 :: int) = 5678"
    by simp_all
  have u: "UbiquitiScanner_parse_packet 100 101 (udp_frame (str_of ''10.0.0.9'') 10001 10001
      ([0x01, 0x00, 0x00, 0x00] @ ubnt_tlv 0x0B [0x41, 0x50, 0x31]
         @ ubnt_tlv 0x01 [0xAA, 0xBB, 0xCC, 0xDD, 0xEE, 0xFF]))
     = Some \<lparr>brand = str_of ''Ubiquiti'', ip = str_of ''10.0.0.9'',
             mac = str_of ''AA:BB:CC:DD:EE:FF'', name = str_of ''AP1'', model = [],
             firmware = [], uptime = 0, discovered_at = 100, last_seen = 101\<rparr>"
    by (simp add: UbiquitiScanner_parse_packet_def udp_frame_def ubnt_tlv_def
        UbiquitiScanner_port_def slice_def UbiquitiScanner_parse_tlv_def ubnt_loop_end
        ubnt_loop_next ubnt_step_def index_byte_def ubnt_store_def ubnt_empty_def
        format_mac_def format_02X_def hex_digit_def decode_text_def strip_nul_def is_cont_def
        dict_get_def new_Device_def UbiquitiScanner_brand_def str_of_def)
  have m: "MNDPScanner_parse_packet ascii_lower 100 101 (udp_frame (str_of ''10.0.0.9'') 5678 5678
      (mndp_tlv 0x0005 [0x52, 0x31] @ mndp_tlv 0x0001 [0xAA, 0xBB, 0xCC, 0xDD, 0xEE, 0xFF]))
     = Some \<lparr>brand = str_of ''Mikrotik/MNDP'', ip = str_of ''10.0.0.9'',
             mac = str_of ''AA:BB:CC:DD:EE:FF'', name = str_of ''R1'', model = [],
             firmware = [], uptime = 0, discovered_at = 100, last_seen = 101\<rparr>"
    by (simp add: MNDPScanner_parse_packet_def udp_frame_def mndp_tlv_def
        MNDPScanner_port_def slice_def MNDPScanner_parse_tlv_def mndp_loop_end
        mndp_loop_next mndp_step_def mndp_store_def mndp_empty_def
        format_mac_def format_02X_def hex_digit_def decode_text_def strip_nul_def is_cont_def
        dict_get_def new_Device_def detect_brand_def mikrotik_indicators_def ascii_lower_def
        str_of_def)
  show ?thesis
    using short_mac_tlv_skipped [OF h, where seen = "[]" and rest = "[]" and lw = ascii_lower and ur = ubnt_empty
        and mr = mndp_empty and ?t1.0 = 100 and ?t2.0 = 101 and src = "str_of ''10.0.0.9''"
        and ?c1.0 = "0x00" and ?c2.0 = "0x00"] u m
    by (simp add: ubnt_stream_def mndp_stream_def)
qed



section \<open>The firmware field\<close>

lemma ubnt_store_firmware_other:
  "t \<noteq> 0x03 \<Longrightarrow> ubnt_store t v r = Some r' \<Longrightarrow> u_firmware r' = u_firmware r"
  by (auto simp: ubnt_store_def split: if_splits option.splits)

lemma ubnt_accumulated_firmware_other:
  "\<forall>(t, v) \<in> set tlvs. t \<noteq> 0x03 \<Longrightarrow> ubnt_accumulated tlvs r = Some r'
   \<Longrightarrow> u_firmware r' = u_firmware r"
proof (induction tlvs arbitrary: r)
  case Nil
  then show ?case by simp
next
  case (Cons p tlvs)
  obtain t v where p: "p = (t, v)" by (cases p)
  obtain r1 where r1: "ubnt_store t v r = Some r1" using ubnt_store_total by blast
  have "u_firmware r1 = u_firmware r"
    using Cons.prems(1) p r1 by (intro ubnt_store_firmware_other [of t v r r1]) auto
  moreover have "u_firmware r' = u_firmware r1"
    using Cons.prems p r1 by (intro Cons.IH) auto
  ultimately show ?case by simp
qed

lemma ubnt_packet_firmware:
  "UbiquitiScanner_parse_packet t1 t2 (udp_frame src sp dp payload) = Some d
   \<Longrightarrow> firmware d = dict_get (u_firmware (UbiquitiScanner_parse_tlv (drop 4 payload))) []"
  by (auto simp: UbiquitiScanner_parse_packet_def udp_frame_def Let_def new_Device_def
      split: if_splits)

text \<open>
  Claim C9, as the code has it. When a Ubiquiti payload decodes to a Device, its firmware
  field comes from the last firmware TLV (type 0x03) of the payload: it is the UTF-8
  decoding of that TLV's value, ill-formed bytes dropped, with every leading and every
  trailing NUL character removed.
\<close>

theorem ubnt_firmware_decoded:
  assumes enc: "\<forall>(t, x) \<in> set (pre @ post). length x < 65536"
    and fw: "length fw < 65536"
    and last: "\<forall>(t, x) \<in> set post. t \<noteq> 0x03"
    and tail: "length tail < 3 \<or> ubnt_overrun tail"
    and hdr: "length hdr = 4"
    and dec: "UbiquitiScanner_parse_packet t1 t2
                (udp_frame src sp dp
                   (hdr @ ubnt_stream pre @ ubnt_tlv 0x03 fw @ ubnt_stream post @ tail)) = Some d"
  shows "firmware d = strip_nul (utf8_decode_ignore fw)"
proof -
  let ?tlvs = "pre @ [(0x03, fw)] @ post"
  obtain r0 where r0: "ubnt_accumulated pre ubnt_empty = Some r0"
    using ubnt_accumulated_total by blast
  let ?r1 = "r0\<lparr>u_firmware := Some (decode_text fw)\<rparr>"
  obtain r where r: "ubnt_accumulated post ?r1 = Some r"
    using ubnt_accumulated_total by blast
  have acc: "ubnt_accumulated ?tlvs ubnt_empty = Some r"
    using r0 r by (simp add: ubnt_accumulated_append ubnt_store_def)
  have f: "u_firmware r = Some (decode_text fw)"
    using ubnt_accumulated_firmware_other [OF last r] by simp
  have all: "\<forall>(t, x) \<in> set ?tlvs. length x < 65536" using enc fw by auto
  have "UbiquitiScanner_parse_tlv (ubnt_stream ?tlvs @ tail) = ubnt_loop tail 0 r"
    unfolding UbiquitiScanner_parse_tlv_def using all acc by (rule ubnt_loop_stream)
  also have "\<dots> = r" using tail by (rule ubnt_loop_tail)
  finally have p: "UbiquitiScanner_parse_tlv (ubnt_stream ?tlvs @ tail) = r" .
  have "drop 4 (hdr @ ubnt_stream pre @ ubnt_tlv 0x03 fw @ ubnt_stream post @ tail)
          = ubnt_stream ?tlvs @ tail"
    using hdr by (simp add: ubnt_stream_def)
  then have "firmware d = dict_get (u_firmware r) []"
    using ubnt_packet_firmware [OF dec] p by simp
  then show ?thesis using f by (simp add: dict_get_def decode_text_def)
qed

theorem ubnt_firmware_decoded_witness:
  "UbiquitiScanner_parse_packet 100 101 (udp_frame (str_of ''10.0.0.9'') 10001 10001
      ([0x01, 0x00, 0x00, 0x00] @ ubnt_stream [(0x01, [0xAA, 0xBB, 0xCC, 0xDD, 0xEE, 0xFF])]
         @ ubnt_tlv 0x03 [0x00, 0x76, 0xFF, 0x31, 0x00, 0x00]
         @ ubnt_stream [(0x0B, [0x41, 0x50, 0x31])] @ []))
     = Some \<lparr>brand = str_of ''Ubiquiti'', ip = str_of ''10.0.0.9'',
             mac = str_of ''AA:BB:CC:DD:EE:FF'', name = str_of ''AP1'', model = [],
             firmware = str_of ''v1'', uptime = 0, discovered_at = 100, last_seen = 101\<rparr>
   \<and> str_of ''v1'' = strip_nul (utf8_decode_ignore [0x00, 0x76, 0xFF, 0x31, 0x00, 0x00])"
proof -
  have dec: "UbiquitiScanner_parse_packet 100 101 (udp_frame (str_of ''10.0.0.9'') 10001 10001
      ([0x01, 0x00, 0x00, 0x00] @ ubnt_stream [(0x01, [0xAA, 0xBB, 0xCC, 0xDD, 0xEE, 0xFF])]
         @ ubnt_tlv 0x03 [0x00, 0x76, 0xFF, 0x31, 0x00, 0x00]
         @ ubnt_stream [(0x0B, [0x41, 0x50, 0x31])] @ []))
     = Some \<lparr>brand = str_of ''Ubiquiti'', ip = str_of ''10.0.0.9'',
             mac = str_of ''AA:BB:CC:DD:EE:FF'', name = str_of ''AP1'', model = [],
             firmware = str_of ''v1'', uptime = 0, discovered_at = 100, last_seen = 101\<rparr>"
    by (simp add: UbiquitiScanner_parse_packet_def udp_frame_def ubnt_tlv_def ubnt_stream_def
        UbiquitiScanner_port_def slice_def UbiquitiScanner_parse_tlv_def ubnt_loop_end
        ubnt_loop_next ubnt_step_def index_byte_def ubnt_store_def ubnt_empty_def
        format_mac_def format_02X_def hex_digit_def decode_text_def strip_nul_def is_cont_def
        dict_get_def new_Device_def UbiquitiScanner_brand_def str_of_def)
  have h: "\<forall>(t, x) \<in> set ([(0x01 :: byte, [0xAA, 0xBB, 0xCC, 0xDD, 0xEE, 0xFF :: byte])]
                            @ [(0x0B, [0x41, 0x50, 0x31])]). length x < 65536"
    "length [0x00, 0x76, 0xFF, 0x31, 0x00, 0x00 :: byte] < 65536"
    "\<forall>(t, x) \<in> set [(0x0B :: byte, [0x41, 0x50, 0x31 :: byte])]. t \<noteq> 0x03"
    "length ([] :: bytes) < 3 \<or> ubnt_overrun []"
    "length [0x01, 0x00, 0x00, 0x00 :: byte] = 4"
    by simp_all
  show ?thesis
    using ubnt_firmware_decoded [OF h dec] dec by simp
qed

text \<open>
  Claim C9 as stated fails: the firmware value \<open>00 76 31\<close> has a leading NUL, which
  trimming the trailing NUL alone would keep; the decoded firmware is \<open>v1\<close>.
\<close>

theorem firmware_trailing_nul_counterexample:
  "map_option firmware
     (UbiquitiScanner_parse_packet 100 101 (udp_frame (str_of ''10.0.0.9'') 10001 10001
        ([0x01, 0x00, 0x00, 0x00] @ ubnt_tlv 0x01 [0xAA, 0xBB, 0xCC, 0xDD, 0xEE, 0xFF]
           @ ubnt_tlv 0x03 [0x00, 0x76, 0x31])))
     = Some (str_of ''v1'')
   \<and> trim_trailing_nul (utf8_decode_ignore [0x00, 0x76, 0x31]) = 0 # str_of ''v1''"
  by (simp add: UbiquitiScanner_parse_packet_def udp_frame_def ubnt_tlv_def
        UbiquitiScanner_port_def slice_def UbiquitiScanner_parse_tlv_def ubnt_loop_end
        ubnt_loop_next ubnt_step_def index_byte_def ubnt_store_def ubnt_empty_def
        format_mac_def format_02X_def hex_digit_def decode_text_def strip_nul_def is_cont_def
        dict_get_def new_Device_def UbiquitiScanner_brand_def str_of_def trim_trailing_nul_def)


section \<open>Brand and model of an MNDP device\<close>

lemma str_contains_sublist: "str_contains sub s \<longleftrightarrow> sublist sub s"
  by (induction s) (auto simp: sublist_Cons_right)

lemma indicator_loop_any:
  "indicator_loop inds combined =
     (if \<exists>i \<in> set inds. str_contains i combined then str_of ''Mikrotik''
      else str_of ''Mikrotik/MNDP'')"
  by (induction inds) auto

lemma detect_brand_sublist:
  "detect_brand lw platform board =
     (if sublist (str_of ''mimosa'') (lw (platform @ str_of '' '' @ board))
      then str_of ''Mimosa''
      else if \<exists>i \<in> set mikrotik_indicators. sublist i (lw (platform @ str_of '' '' @ board))
           then str_of ''Mikrotik''
      else str_of ''Mikrotik/MNDP'')"
proof -
  have sp: "str_of '' '' = [32]" by (simp add: str_of_def)
  show ?thesis
    unfolding detect_brand_def Let_def indicator_loop_any str_contains_sublist sp ..
qed

text \<open>
  Claim C7, as the code has it. When an MNDP payload decodes to a Device, its brand is
  derived from the lower-case form, under the case mapping \<open>lw\<close> that stands for
  Python's \<open>str.lower\<close>, of platform, one space, board: \<open>Mimosa\<close> if that contains
  \<open>mimosa\<close>, else \<open>Mikrotik\<close> if it contains one of the Mikrotik indicators, else
  \<open>Mikrotik/MNDP\<close>; its model is the board name if that is not empty, else the
  platform. This holds whatever the case mapping is, so also for text outside ASCII.
\<close>

theorem mndp_brand_and_model:
  assumes "udp pkt = Some u" and "load u = Some payload"
    and "MNDPScanner_parse_packet lw t1 t2 pkt = Some d"
  shows "let tlv_data = MNDPScanner_parse_tlv payload;
             platform = dict_get (m_platform tlv_data) [];
             board = dict_get (m_board tlv_data) [];
             combined = lw (platform @ str_of '' '' @ board)
         in brand d =
              (if sublist (str_of ''mimosa'') combined then str_of ''Mimosa''
               else if \<exists>indicator \<in> set mikrotik_indicators. sublist indicator combined
                    then str_of ''Mikrotik''
               else str_of ''Mikrotik/MNDP'')
            \<and> model d = (if board \<noteq> [] then board else platform)"
proof -
  let ?tlv = "MNDPScanner_parse_tlv payload"
  let ?platform = "dict_get (m_platform ?tlv) []"
  let ?board = "dict_get (m_board ?tlv) []"
  have "brand d = detect_brand lw ?platform ?board
        \<and> model d = (if ?board \<noteq> [] then ?board else ?platform)"
    using assms
    by (auto simp: MNDPScanner_parse_packet_def Let_def new_Device_def
        split: option.splits if_splits)
  then show ?thesis
    unfolding Let_def detect_brand_sublist by simp
qed

theorem mndp_brand_and_model_witness:
  "MNDPScanner_parse_packet ascii_lower 100 101 (udp_frame (str_of ''10.0.0.9'') 5678 5678
      (mndp_tlv 0x0001 [0xAA, 0xBB, 0xCC, 0xDD, 0xEE, 0xFF]
       @ mndp_tlv 0x0008 [0x52, 0x6F, 0x75, 0x74, 0x65, 0x72, 0x42, 0x4F, 0x41, 0x52, 0x44,
                          0x20, 0x39, 0x35, 0x31]))
     = Some \<lparr>brand = str_of ''Mikrotik'', ip = str_of ''10.0.0.9'',
             mac = str_of ''AA:BB:CC:DD:EE:FF'', name = str_of ''Unknown'',
             model = str_of ''RouterBOARD 951'', firmware = [], uptime = 0,
             discovered_at = 100, last_seen = 101\<rparr>
   \<and> (let tlv_data = MNDPScanner_parse_tlv
             (mndp_tlv 0x0001 [0xAA, 0xBB, 0xCC, 0xDD, 0xEE, 0xFF]
       @ mndp_tlv 0x0008 [0x52, 0x6F, 0x75, 0x74, 0x65, 0x72, 0x42, 0x4F, 0x41, 0x52, 0x44,
                          0x20, 0x39, 0x35, 0x31]);
             platform = dict_get (m_platform tlv_data) [];
             board = dict_get (m_board tlv_data) [];
             combined = ascii_lower (platform @ str_of '' '' @ board)
         in brand \<lparr>brand = str_of ''Mikrotik'', ip = str_of ''10.0.0.9'',
             mac = str_of ''AA:BB:CC:DD:EE:FF'', name = str_of ''Unknown'',
             model = str_of ''RouterBOARD 951'', firmware = [], uptime = 0,
             discovered_at = 100, last_seen = 101\<rparr> =
              (if sublist (str_of ''mimosa'') combined then str_of ''Mimosa''
               else if \<exists>indicator \<in> set mikrotik_indicators. sublist indicator combined
                    then str_of ''Mikrotik''
               else str_of ''Mikrotik/MNDP'')
            \<and> model \<lparr>brand = str_of ''Mikrotik'', ip = str_of ''10.0.0.9'',
             mac = str_of ''AA:BB:CC:DD:EE:FF'', name = str_of ''Unknown'',
             model = str_of ''RouterBOARD 951'', firmware = [], uptime = 0,
             discovered_at = 100, last_seen = 101\<rparr> = (if board \<noteq> [] then board else platform))"
proof -
  let ?payload = "(mndp_tlv 0x0001 [0xAA, 0xBB, 0xCC, 0xDD, 0xEE, 0xFF]
       @ mndp_tlv 0x0008 [0x52, 0x6F, 0x75, 0x74, 0x65, 0x72, 0x42, 0x4F, 0x41, 0x52, 0x44,
                          0x20, 0x39, 0x35, 0x31])"
  let ?pkt = "udp_frame (str_of ''10.0.0.9'') 5678 5678 ?payload"
  have dec: "MNDPScanner_parse_packet ascii_lower 100 101 ?pkt
     = Some \<lparr>brand = str_of ''Mikrotik'', ip = str_of ''10.0.0.9'',
             mac = str_of ''AA:BB:CC:DD:EE:FF'', name = str_of ''Unknown'',
             model = str_of ''RouterBOARD 951'', firmware = [], uptime = 0,
             discovered_at = 100, last_seen = 101\<rparr>"
    by (simp add: MNDPScanner_parse_packet_def udp_frame_def
        MNDPScanner_port_def mndp_tlv_def slice_def MNDPScanner_parse_tlv_def mndp_loop_end
        mndp_loop_next mndp_step_def mndp_store_def mndp_empty_def
        format_mac_def format_02X_def hex_digit_def decode_text_def strip_nul_def is_cont_def
        dict_get_def new_Device_def detect_brand_def mikrotik_indicators_def ascii_lower_def
        str_of_def)
  have u: "udp ?pkt = Some \<lparr>sport = 5678, dport = 5678, load = Some ?payload\<rparr>"
    and l: "load \<lparr>sport = 5678, dport = 5678, load = Some ?payload\<rparr> = Some ?payload"
    by (simp_all add: udp_frame_def)
  show ?thesis
    by (rule conjI [OF dec mndp_brand_and_model [OF u l dec]])
qed

text \<open>
  Claim C7 as stated fails: with platform \<open>mim\<close> and board \<open>osa\<close> the plain
  concatenation contains \<open>mimosa\<close>, but the code puts a space between the two and
  finds neither \<open>mimosa\<close> nor an indicator. Both texts are lower-case ASCII, which
  \<open>str.lower\<close> leaves as they are, as \<open>ascii_lower\<close> does.
\<close>

theorem brand_concatenation_counterexample:
  "map_option brand
     (MNDPScanner_parse_packet ascii_lower 100 101 (udp_frame (str_of ''10.0.0.9'') 5678 5678
        (mndp_tlv 0x0001 [0xAA, 0xBB, 0xCC, 0xDD, 0xEE, 0xFF]
         @ mndp_tlv 0x0008 [0x6D, 0x69, 0x6D] @ mndp_tlv 0x000E [0x6F, 0x73, 0x61])))
     = Some (str_of ''Mikrotik/MNDP'')
   \<and> decode_text [0x6D, 0x69, 0x6D] = str_of ''mim''
   \<and> decode_text [0x6F, 0x73, 0x61] = str_of ''osa''
   \<and> spec_brand ascii_lower (str_of ''mim'') (str_of ''osa'') = str_of ''Mimosa''"
  by (simp add: MNDPScanner_parse_packet_def udp_frame_def
        MNDPScanner_port_def mndp_tlv_def slice_def MNDPScanner_parse_tlv_def mndp_loop_end
        mndp_loop_next mndp_step_def mndp_store_def mndp_empty_def
        format_mac_def format_02X_def hex_digit_def decode_text_def strip_nul_def is_cont_def
        dict_get_def new_Device_def detect_brand_def mikrotik_indicators_def ascii_lower_def
        spec_brand_def str_of_def)



section \<open>The device registry\<close>

lemma set_lock_simps:
  "heap (set_lock l w) = heap w" "devices (mgr (set_lock l w)) = devices (mgr w)"
  "lock (mgr (set_lock l w)) = l" "clock (set_lock l w) = clock w" "ticks (set_lock l w) = ticks w"
  by (simp_all add: set_lock_def)

lemma release_acquire: "acquire t l = Some l' \<Longrightarrow> release l' = l"
  by (cases l) (auto split: if_splits)

lemma unlock_set_lock: "acquire t (lock (mgr w)) = Some l \<Longrightarrow> unlock (set_lock l w) = w"
  by (simp add: unlock_def set_lock_def release_acquire)

lemma notify_quiet:
  assumes "quiet cb"
  shows "\<exists>w'. notify cb a w = Some w' \<and> heap w' = heap w
            \<and> mgr w' = (mgr w)\<lparr>lock := release (lock (mgr w))\<rparr>"
proof (cases cb)
  case None
  then show ?thesis by (simp add: notify_def unlock_def set_lock_def)
next
  case (Some f)
  then obtain s' where "f a w = Some s'" "heap s' = heap w" "mgr s' = mgr w"
    using assms unfolding quiet_def by (auto split: option.splits)
  then show ?thesis using Some by (simp add: notify_def unlock_def set_lock_def)
qed

lemma discovered_new:
  assumes free: "acquire t (lock (mgr w)) \<noteq> None"
    and new: "map_of (devices (mgr w)) (unique_id (heap w d)) = None"
    and q: "quiet (on_device_callback cbs)"
  shows "\<exists>w'. on_device_discovered cbs t d w = Some w' \<and> heap w' = heap w
            \<and> mgr w' = (mgr w)\<lparr>devices := devices (mgr w) @ [(unique_id (heap w d), d)]\<rparr>"
proof -
  obtain l where l: "acquire t (lock (mgr w)) = Some l" using free by blast
  let ?w2 = "(set_lock l w)\<lparr>mgr := (mgr (set_lock l w))
               \<lparr>devices := devices (mgr (set_lock l w)) @ [(unique_id (heap w d), d)]\<rparr>\<rparr>"
  obtain w' where w': "notify (on_device_callback cbs) d ?w2 = Some w'" "heap w' = heap ?w2"
      "mgr w' = (mgr ?w2)\<lparr>lock := release (lock (mgr ?w2))\<rparr>"
    using notify_quiet [OF q] by blast
  have "on_device_discovered cbs t d w = Some w'"
    using l new w'(1) by (simp add: on_device_discovered_def Let_def set_lock_def)
  moreover have "heap w' = heap w" using w'(2) by (simp add: set_lock_def)
  moreover have "mgr w' = (mgr w)\<lparr>devices := devices (mgr w) @ [(unique_id (heap w d), d)]\<rparr>"
    using w'(3) release_acquire [OF l] by (simp add: set_lock_def)
  ultimately show ?thesis by blast
qed

lemma discovered_existing:
  assumes free: "acquire t (lock (mgr w)) \<noteq> None"
    and old: "map_of (devices (mgr w)) (unique_id (heap w d)) = Some e"
    and q: "quiet (on_device_update_callback cbs)"
  shows "\<exists>w'. on_device_discovered cbs t d w = Some w' \<and> mgr w' = mgr w
            \<and> heap w' = (heap w)(e := (heap w e)\<lparr>ip := ip (heap w d),
                                                  last_seen := clock w (ticks w)\<rparr>)"
proof -
  obtain l where l: "acquire t (lock (mgr w)) = Some l" using free by blast
  let ?w1 = "set_lock l w"
  let ?w2 = "update_last_seen e ?w1"
  let ?w3 = "if ip (heap ?w2 e) \<noteq> ip (heap ?w2 d) then setattr_ip e (ip (heap ?w2 d)) ?w2 else ?w2"
  have h3: "heap ?w3 = (heap w)(e := (heap w e)\<lparr>ip := ip (heap w d),
                                                  last_seen := clock w (ticks w)\<rparr>)"
    by (auto simp: update_last_seen_def datetime_now_def setattr_ip_def set_lock_def fun_eq_iff)
  have m3: "mgr ?w3 = (mgr w)\<lparr>lock := l\<rparr>"
    by (simp add: update_last_seen_def datetime_now_def setattr_ip_def set_lock_def)
  obtain w' where w': "notify (on_device_update_callback cbs) e ?w3 = Some w'"
      "heap w' = heap ?w3" "mgr w' = (mgr ?w3)\<lparr>lock := release (lock (mgr ?w3))\<rparr>"
    using notify_quiet [OF q] by blast
  have "on_device_discovered cbs t d w = Some w'"
    using l old w'(1)
    by (simp add: on_device_discovered_def Let_def set_lock_simps split del: if_split)
  moreover have "heap w' = (heap w)(e := (heap w e)\<lparr>ip := ip (heap w d),
                                                  last_seen := clock w (ticks w)\<rparr>)"
    using w'(2) h3 by simp
  moreover have "mgr w' = mgr w"
    using w'(3) m3 release_acquire [OF l] by simp
  ultimately show ?thesis by blast
qed

text \<open>
  Claim C1. Thread \<open>t\<close> passes two Device objects to \<open>_on_device_discovered\<close>, one
  after the other; their MAC addresses have the same upper-case form and their IP
  addresses differ, the registry has no record under that key before, the lock can be
  taken and the callbacks are quiet. Then both calls return, the registry has gained
  exactly one entry, keyed by the upper-case MAC and holding the first object; no other
  entry has that key; the record's \<open>ip\<close> is the IP address of the second sighting and
  its \<open>discovered_at\<close> is that of the first.
\<close>

theorem registry_dedup:
  assumes same: "unique_id (heap w d1) = unique_id (heap w d2)"
    and diff: "ip (heap w d1) \<noteq> ip (heap w d2)"
    and first: "map_of (devices (mgr w)) (unique_id (heap w d1)) = None"
    and free: "acquire t (lock (mgr w)) \<noteq> None"
    and q: "quiet (on_device_callback cbs)" "quiet (on_device_update_callback cbs)"
  shows "\<exists>w1 w2. on_device_discovered cbs t d1 w = Some w1
           \<and> on_device_discovered cbs t d2 w1 = Some w2
           \<and> devices (mgr w2) = devices (mgr w) @ [(upper (mac (heap w d1)), d1)]
           \<and> filter (\<lambda>(k, a). k = upper (mac (heap w d1))) (devices (mgr w2))
               = [(upper (mac (heap w d1)), d1)]
           \<and> ip (heap w2 d1) = ip (heap w d2)
           \<and> discovered_at (heap w2 d1) = discovered_at (heap w d1)"
proof -
  let ?uid = "unique_id (heap w d1)"
  obtain w1 where w1: "on_device_discovered cbs t d1 w = Some w1" "heap w1 = heap w"
      "mgr w1 = (mgr w)\<lparr>devices := devices (mgr w) @ [(?uid, d1)]\<rparr>"
    using discovered_new [OF free first q(1)] by blast
  have free1: "acquire t (lock (mgr w1)) \<noteq> None" using free w1(3) by simp
  have old: "map_of (devices (mgr w1)) (unique_id (heap w1 d2)) = Some d1"
    using first same w1(2,3) by (simp add: map_add_def)
  obtain w2 where w2: "on_device_discovered cbs t d2 w1 = Some w2" "mgr w2 = mgr w1"
      "heap w2 = (heap w1)(d1 := (heap w1 d1)\<lparr>ip := ip (heap w1 d2),
                                                last_seen := clock w1 (ticks w1)\<rparr>)"
    using discovered_existing [OF free1 old q(2)] by blast
  have none: "filter (\<lambda>(k, a). k = ?uid) (devices (mgr w)) = []"
  proof -
    have "?uid \<notin> fst ` set (devices (mgr w))"
      using first by (simp add: map_of_eq_None_iff)
    then show ?thesis by (force simp: filter_empty_conv)
  qed
  show ?thesis
    using w1(1) w2(1) w2(2,3) w1(2,3) none
    by (auto simp: unique_id_def)
qed


theorem registry_dedup_witness:
  "\<exists>w1 w2. on_device_discovered no_callbacks 0 0 (world0 ()) = Some w1
           \<and> on_device_discovered no_callbacks 0 1 w1 = Some w2
           \<and> devices (mgr w2) = [(str_of ''AA:BB:CC:DD:EE:FF'', 0)]
           \<and> filter (\<lambda>(k, a). k = str_of ''AA:BB:CC:DD:EE:FF'') (devices (mgr w2))
               = [(str_of ''AA:BB:CC:DD:EE:FF'', 0)]
           \<and> ip (heap w2 0) = str_of ''10.0.0.2''
           \<and> discovered_at (heap w2 0) = 100"
proof -
  have up: "upper (str_of ''aa:bb:cc:dd:ee:ff'') = str_of ''AA:BB:CC:DD:EE:FF''"
    "upper (str_of ''AA:BB:CC:DD:EE:FF'') = str_of ''AA:BB:CC:DD:EE:FF''"
    by (simp_all add: upper_def str_of_def)
  have h: "unique_id (heap (world0 ()) 0) = unique_id (heap (world0 ()) 1)"
    "ip (heap (world0 ()) 0) \<noteq> ip (heap (world0 ()) 1)"
    "map_of (devices (mgr (world0 ()))) (unique_id (heap (world0 ()) 0)) = None"
    "acquire 0 (lock (mgr (world0 ()))) \<noteq> None"
    "quiet (on_device_callback (no_callbacks :: unit callbacks))"
    "quiet (on_device_update_callback (no_callbacks :: unit callbacks))"
    by (simp_all add: world0_def unique_id_def dev_a_def dev_b_def upper_def
        ScannerManager_init_def quiet_def no_callbacks_def str_of_def)
  show ?thesis
    using registry_dedup [OF h]
    by (simp add: world0_def dev_a_def dev_b_def up ScannerManager_init_def)
qed

text \<open>
  Claim C2, on the code. The manager is started and the capture source cannot be opened:
  \<open>sniff\<close> raises PermissionError before any frame. \<open>_sniff_loop\<close> returns and leaves
  the state as \<open>start\<close> made it: the registry is untouched, but the running flag is still
  set, so \<open>is_running\<close> answers True after the loop has ended.
\<close>

theorem permission_error_keeps_running_flag:
  "sniff_loop cbs t \<lparr>frames = [], failure = Some PermissionError\<rparr> (start w) = Some (start w)
   \<and> is_running (start w)
   \<and> devices (mgr (start w)) = devices (mgr w) \<and> heap (start w) = heap w"
  by (simp add: sniff_loop_def sniff_def start_def is_running_def)

lemma acquire_held: "acquire t l = Some l' \<Longrightarrow> \<exists>k. l' = Locked t k"
  by (cases l) (auto split: if_splits)

lemma notify_checked:
  "held_by t w \<Longrightarrow> notify (map_option (checked t) cb) a w = notify cb a w"
  by (cases cb) (simp_all add: notify_def checked_def)

lemma held_by_simps:
  "held_by t (update_last_seen e w) = held_by t w"
  "held_by t (setattr_ip e v w) = held_by t w"
  "held_by t (w\<lparr>mgr := (mgr w)\<lparr>devices := ds\<rparr>\<rparr>) = held_by t w"
  by (simp_all add: held_by_def update_last_seen_def datetime_now_def setattr_ip_def)

lemma held_by_set_lock: "acquire t (lock (mgr w)) = Some l \<Longrightarrow> held_by t (set_lock l w)"
  using acquire_held [of t "lock (mgr w)" l] by (auto simp: held_by_def set_lock_def)

lemma reentrant_returns: "held_by t w \<Longrightarrow> \<exists>w'. reentrant t a w = Some w'"
  by (cases "lock (mgr w)") (auto simp: reentrant_def get_devices_def held_by_def)

lemma notify_reentrant: "held_by t w \<Longrightarrow> \<exists>y. notify (Some (reentrant t)) a w = Some y"
  using reentrant_returns [of t w a] by (auto simp: notify_def)

text \<open>
  Claim C3, as the code has it. \<open>_on_device_discovered\<close> calls the new-device and the
  device-updated callback inside its \<open>with self._lock\<close> block: whatever the callbacks
  are, asserting in them that the calling thread holds the lock changes nothing. The
  lock is re-entrant, so a callback that calls \<open>get_devices\<close> on the same thread
  returns and the handler returns.
\<close>

theorem callbacks_run_under_lock:
  "on_device_discovered (checked_callbacks t cbs) t a w = on_device_discovered cbs t a w
   \<and> (acquire t (lock (mgr w)) \<noteq> None \<longrightarrow>
        on_device_discovered (reentrant_callbacks t) t a w \<noteq> None)"
proof (cases "acquire t (lock (mgr w))")
  case None
  then show ?thesis by (simp add: on_device_discovered_def)
next
  case (Some l)
  have h: "held_by t (set_lock l w)" using Some by (rule held_by_set_lock)
  show ?thesis
    using Some h
    by (simp add: on_device_discovered_def Let_def checked_callbacks_def reentrant_callbacks_def
        notify_checked notify_reentrant held_by_simps split: option.splits)
qed

theorem callbacks_run_under_lock_witness:
  "on_device_discovered (checked_callbacks 0 probe_callbacks) 0 0 (world0 [])
     = on_device_discovered probe_callbacks 0 0 (world0 [])
   \<and> on_device_discovered (reentrant_callbacks 0) 0 0 (world0 ()) \<noteq> None"
proof -
  have h: "acquire 0 (lock (mgr (world0 ()))) \<noteq> None"
    by (simp add: world0_def ScannerManager_init_def)
  show ?thesis
    using callbacks_run_under_lock [of 0 probe_callbacks 0 "world0 []"]
      callbacks_run_under_lock [of 0 "no_callbacks :: unit callbacks" 0 "world0 ()"] h
    by simp
qed

text \<open>
  Claim C3 as stated fails: starting with the lock free, the callback for a new device
  and the callback for a device seen again both find the lock held by the thread that
  runs the handler.
\<close>

theorem callback_sees_lock_held_counterexample:
  "lock (mgr (world0 [])) = Unlocked
   \<and> map_option ext (on_device_discovered probe_callbacks 0 0 (world0 [])) = Some [Locked 0 0]
   \<and> map_option ext (Option.bind (on_device_discovered probe_callbacks 0 0 (world0 []))
                        (on_device_discovered probe_callbacks 0 1))
       = Some [Locked 0 0, Locked 0 0]"
  by (simp add: world0_def ScannerManager_init_def on_device_discovered_def Let_def set_lock_def
      unique_id_def dev_a_def dev_b_def upper_def str_of_def notify_def probe_callbacks_def
      probe_def unlock_def update_last_seen_def datetime_now_def setattr_ip_def)

text \<open>
  Claim C4, as the code has it. When the lock can be taken, \<open>get_devices\<close> returns the
  addresses of the registry's own Device objects, in registry order, and
  \<open>get_device_count\<close> their number; neither call changes the state, so no object is
  copied. Writing the \<open>ip\<close> field through the i-th element of the returned list
  changes the i-th record of the registry.
\<close>

theorem get_devices_shares_records:
  assumes "acquire t (lock (mgr w)) \<noteq> None"
  shows "get_devices t w = Some (map snd (devices (mgr w)), w)
       \<and> get_device_count t w = Some (int (length (devices (mgr w))), w)
       \<and> (\<forall>i < length (devices (mgr w)).
            snd (registry_records (setattr_ip (map snd (devices (mgr w)) ! i) v w) ! i)
              = (heap w (snd (devices (mgr w) ! i)))\<lparr>ip := v\<rparr>)"
proof -
  obtain l where l: "acquire t (lock (mgr w)) = Some l" using assms by blast
  have "get_devices t w = Some (map snd (devices (mgr w)), w)"
    using l by (simp add: get_devices_def unlock_set_lock set_lock_simps)
  moreover have "get_device_count t w = Some (int (length (devices (mgr w))), w)"
    using l by (simp add: get_device_count_def unlock_set_lock set_lock_simps)
  moreover have "\<forall>i < length (devices (mgr w)).
            snd (registry_records (setattr_ip (map snd (devices (mgr w)) ! i) v w) ! i)
              = (heap w (snd (devices (mgr w) ! i)))\<lparr>ip := v\<rparr>"
    by (simp add: registry_records_def setattr_ip_def case_prod_beta)
  ultimately show ?thesis by blast
qed

theorem get_devices_shares_records_witness:
  "get_devices 7 (world1 ()) = Some ([0], world1 ())
   \<and> get_device_count 7 (world1 ()) = Some (1, world1 ())
   \<and> registry_records (setattr_ip 0 (str_of ''6.6.6.6'') (world1 ()))
       = [(str_of ''AA:BB:CC:DD:EE:FF'', dev_a\<lparr>ip := str_of ''6.6.6.6''\<rparr>)]"
proof -
  have h: "acquire 7 (lock (mgr (world1 ()))) \<noteq> None"
    by (simp add: world1_def world0_def ScannerManager_init_def)
  have r: "registry_records (setattr_ip 0 (str_of ''6.6.6.6'') (world1 ()))
       = [(str_of ''AA:BB:CC:DD:EE:FF'', dev_a\<lparr>ip := str_of ''6.6.6.6''\<rparr>)]"
    by (simp add: registry_records_def setattr_ip_def world1_def world0_def
        ScannerManager_init_def)
  show ?thesis
    using get_devices_shares_records [OF h] r
    by (simp add: world1_def world0_def ScannerManager_init_def)
qed

text \<open>
  Claim C4 as stated fails: the registry holds one device with IP address 10.0.0.1; a
  caller that writes another address through the first element of the list returned by
  \<open>get_devices\<close> has changed the registry's record.
\<close>

theorem get_devices_live_record_counterexample:
  "map (\<lambda>(k, d). ip d) (registry_records (world1 ())) = [str_of ''10.0.0.1'']
   \<and> map_option (\<lambda>(ds, w'). map (\<lambda>(k, d). ip d)
                   (registry_records (setattr_ip (hd ds) (str_of ''6.6.6.6'') w')))
        (get_devices 7 (world1 ()))
       = Some [str_of ''6.6.6.6'']"
  by (simp add: registry_records_def world1_def world0_def ScannerManager_init_def
      get_devices_def set_lock_def unlock_def setattr_ip_def dev_a_def)


end
